theory Spec2Isabelle
  imports Complex_Main
begin

section \<open>Values of the search: integers with the two infinities\<close>

text \<open>
  The searcher compares heuristic scores (Python ints) with the utilities
  \<open>float("inf")\<close> and \<open>float("-inf")\<close> and starts its bounds at these infinities.
  The values that occur are therefore the integers extended by a least and a greatest
  element; Python's comparison of an int with an infinite float is the order below.
\<close>

datatype ext = NegInf | Fin int | PosInf

instantiation ext :: linorder
begin

fun less_eq_ext :: "ext \<Rightarrow> ext \<Rightarrow> bool" where
  "less_eq_ext NegInf _ = True"
| "less_eq_ext (Fin a) NegInf = False"
| "less_eq_ext (Fin a) (Fin b) = (a \<le> b)"
| "less_eq_ext (Fin a) PosInf = True"
| "less_eq_ext PosInf PosInf = True"
| "less_eq_ext PosInf _ = False"

definition less_ext :: "ext \<Rightarrow> ext \<Rightarrow> bool" where
  "less_ext x y = (x \<le> y \<and> \<not> y \<le> x)"

instance
proof
  fix x y z :: ext
  show "(x < y) = (x \<le> y \<and> \<not> y \<le> x)" by (simp add: less_ext_def)
  show "x \<le> x" by (cases x) auto
  show "x \<le> y \<Longrightarrow> y \<le> z \<Longrightarrow> x \<le> z" by (cases x; cases y; cases z) auto
  show "x \<le> y \<Longrightarrow> y \<le> x \<Longrightarrow> x = y" by (cases x; cases y) auto
  show "x \<le> y \<or> y \<le> x" by (cases x; cases y) auto
qed

end

section \<open>The game state capability used by the searchers\<close>

text \<open>
  \<open>my_custom_player.py\<close> receives its game states from the \<open>isolation\<close> library, which
  is not part of the repository. The operations the player calls on a state are taken
  as parameters: a record of functions over an arbitrary type of states and of actions.
  \<open>liberties_of s p\<close> stands for \<open>s.liberties(s.locs[p])\<close>.
\<close>

record ('s, 'a) game =
  actions :: "'s \<Rightarrow> 'a list"
  result :: "'s \<Rightarrow> 'a \<Rightarrow> 's"
  terminal_test :: "'s \<Rightarrow> bool"
  utility :: "'s \<Rightarrow> int \<Rightarrow> ext"
  player :: "'s \<Rightarrow> int"
  ply_count :: "'s \<Rightarrow> int"
  liberties_of :: "'s \<Rightarrow> int \<Rightarrow> 'a list"

section \<open>Alpha-beta search\<close>

text \<open>\<open>CustomPlayer.diff_liberties\<close> and \<open>CustomPlayer.score\<close> (the active heuristic).\<close>

definition diff_liberties :: "('s, 'a) game \<Rightarrow> int \<Rightarrow> 's \<Rightarrow> int" where
  "diff_liberties g player_id state =
     int (length (liberties_of g state player_id))
       - int (length (liberties_of g state (1 - player_id)))"

definition score :: "('s, 'a) game \<Rightarrow> int \<Rightarrow> 's \<Rightarrow> ext" where
  "score g player_id state = Fin (diff_liberties g player_id state)"

text \<open>
  \<open>CustomPlayer.min_value\<close> and \<open>CustomPlayer.max_value\<close>. The \<open>for\<close> loop of each,
  with its early \<open>return\<close>, is the function with the suffix \<open>_loop\<close>: it takes the
  actions still to visit and the current \<open>v\<close>, \<open>alpha\<close> and \<open>beta\<close>.
\<close>

function min_value :: "('s, 'a) game \<Rightarrow> int \<Rightarrow> 's \<Rightarrow> ext \<Rightarrow> ext \<Rightarrow> int \<Rightarrow> ext"
  and min_loop :: "('s, 'a) game \<Rightarrow> int \<Rightarrow> 's \<Rightarrow> 'a list \<Rightarrow> ext \<Rightarrow> ext \<Rightarrow> ext \<Rightarrow> int \<Rightarrow> ext"
  and max_value :: "('s, 'a) game \<Rightarrow> int \<Rightarrow> 's \<Rightarrow> ext \<Rightarrow> ext \<Rightarrow> int \<Rightarrow> ext"
  and max_loop :: "('s, 'a) game \<Rightarrow> int \<Rightarrow> 's \<Rightarrow> 'a list \<Rightarrow> ext \<Rightarrow> ext \<Rightarrow> ext \<Rightarrow> int \<Rightarrow> ext"
where
  "min_value g pid s alpha beta depth =
     (if terminal_test g s then utility g s pid
      else if depth \<le> 0 then score g pid s
      else min_loop g pid s (actions g s) PosInf alpha beta depth)"
| "min_loop g pid s [] v alpha beta depth = v"
| "min_loop g pid s (a # as) v alpha beta depth =
     (let v' = min v (max_value g pid (result g s a) alpha beta (depth - 1))
      in if v' \<le> alpha then v'
         else min_loop g pid s as v' alpha (min beta v') depth)"
| "max_value g pid s alpha beta depth =
     (if terminal_test g s then utility g s pid
      else if depth \<le> 0 then score g pid s
      else max_loop g pid s (actions g s) NegInf alpha beta depth)"
| "max_loop g pid s [] v alpha beta depth = v"
| "max_loop g pid s (a # as) v alpha beta depth =
     (let v' = max v (min_value g pid (result g s a) alpha beta (depth - 1))
      in if beta \<le> v' then v'
         else max_loop g pid s as v' (max alpha v') beta depth)"
  by pat_completeness auto
termination
  by (relation "measures
        [\<lambda>x. case x of
               Inl (Inl (g, pid, s, alpha, beta, d)) \<Rightarrow> (if d \<le> 0 then 0 else 2 * nat d + 2)
             | Inl (Inr (g, pid, s, as, v, alpha, beta, d)) \<Rightarrow> 2 * nat d + 1
             | Inr (Inl (g, pid, s, alpha, beta, d)) \<Rightarrow> (if d \<le> 0 then 0 else 2 * nat d + 2)
             | Inr (Inr (g, pid, s, as, v, alpha, beta, d)) \<Rightarrow> 2 * nat d + 1,
         \<lambda>x. case x of
               Inl (Inl (g, pid, s, alpha, beta, d)) \<Rightarrow> 0
             | Inl (Inr (g, pid, s, as, v, alpha, beta, d)) \<Rightarrow> length as
             | Inr (Inl (g, pid, s, alpha, beta, d)) \<Rightarrow> 0
             | Inr (Inr (g, pid, s, as, v, alpha, beta, d)) \<Rightarrow> length as]")
    auto

declare min_value.simps [simp del] max_value.simps [simp del]

text \<open>
  \<open>CustomPlayer.alpha_beta_search\<close>. Its loop is \<open>root_loop\<close>, over the actions
  still to visit and the current \<open>alpha\<close>, \<open>best_score\<close> and \<open>best_move\<close>
  (\<open>None\<close> as in the source). Beside the two variables the loop returns, for each
  iteration in order, which arm of the \<open>if\<close>/\<open>elif\<close> at the end of the body ran:
  \<open>Better\<close> for \<open>v > best_score\<close>, \<open>Fallback\<close> for \<open>elif best_move is None\<close>,
  \<open>Keep\<close> when neither did. This list is not a variable of the source; it only
  records the control flow.
\<close>

datatype branch = Better | Fallback | Keep

fun root_loop :: "('s, 'a) game \<Rightarrow> int \<Rightarrow> 's \<Rightarrow> 'a list \<Rightarrow> ext \<Rightarrow> ext \<Rightarrow> ext \<Rightarrow> 'a option \<Rightarrow> int
    \<Rightarrow> ext \<times> 'a option \<times> branch list" where
  "root_loop g pid s [] alpha beta best_score best_move depth = (best_score, best_move, [])"
| "root_loop g pid s (a # as) alpha beta best_score best_move depth =
     (let v = min_value g pid (result g s a) alpha beta (depth - 1);
          alpha' = max alpha v
      in if best_score < v then
           (case root_loop g pid s as alpha' beta v (Some a) depth of
              (bs, bm, tr) \<Rightarrow> (bs, bm, Better # tr))
         else if best_move = None then
           (case root_loop g pid s as alpha' beta v (Some a) depth of
              (bs, bm, tr) \<Rightarrow> (bs, bm, Fallback # tr))
         else
           (case root_loop g pid s as alpha' beta best_score best_move depth of
              (bs, bm, tr) \<Rightarrow> (bs, bm, Keep # tr)))"

definition alpha_beta_run :: "('s, 'a) game \<Rightarrow> int \<Rightarrow> 's \<Rightarrow> int \<Rightarrow> ext \<times> 'a option \<times> branch list" where
  "alpha_beta_run g pid game_state depth =
     root_loop g pid game_state (actions g game_state) NegInf PosInf NegInf None depth"

definition alpha_beta_search :: "('s, 'a) game \<Rightarrow> int \<Rightarrow> 's \<Rightarrow> int \<Rightarrow> 'a option" where
  "alpha_beta_search g pid game_state depth = fst (snd (alpha_beta_run g pid game_state depth))"

text \<open>The final \<open>best_score\<close>: the value of the root that the search computed.\<close>

definition alpha_beta_value :: "('s, 'a) game \<Rightarrow> int \<Rightarrow> 's \<Rightarrow> int \<Rightarrow> ext" where
  "alpha_beta_value g pid game_state depth = fst (alpha_beta_run g pid game_state depth)"

definition alpha_beta_branches :: "('s, 'a) game \<Rightarrow> int \<Rightarrow> 's \<Rightarrow> int \<Rightarrow> branch list" where
  "alpha_beta_branches g pid game_state depth = snd (snd (alpha_beta_run g pid game_state depth))"

subsection \<open>Plain depth-limited minimax\<close>

text \<open>
  The reference the alpha-beta searcher is compared with: the same three functions with
  the bounds \<open>alpha\<close> and \<open>beta\<close> and both early returns removed. It keeps the utility
  at terminal states and the heuristic at depth 0.
\<close>

function minimax_min :: "('s, 'a) game \<Rightarrow> int \<Rightarrow> 's \<Rightarrow> int \<Rightarrow> ext"
  and minimax_max :: "('s, 'a) game \<Rightarrow> int \<Rightarrow> 's \<Rightarrow> int \<Rightarrow> ext"
where
  "minimax_min g pid s depth =
     (if terminal_test g s then utility g s pid
      else if depth \<le> 0 then score g pid s
      else fold (\<lambda>a v. min v (minimax_max g pid (result g s a) (depth - 1))) (actions g s) PosInf)"
| "minimax_max g pid s depth =
     (if terminal_test g s then utility g s pid
      else if depth \<le> 0 then score g pid s
      else fold (\<lambda>a v. max v (minimax_min g pid (result g s a) (depth - 1))) (actions g s) NegInf)"
  by pat_completeness auto
termination
  by (relation "measure (\<lambda>x. case x of Inl (g, pid, s, d) \<Rightarrow> nat d | Inr (g, pid, s, d) \<Rightarrow> nat d)")
    auto

declare minimax_min.simps [simp del] minimax_max.simps [simp del]


text \<open>
  The relation between the true value \<open>m\<close> of a position and the value \<open>x\<close> that a
  search with the window \<open>(alpha, beta)\<close> returns for it: at or below \<open>alpha\<close> the
  result is an upper bound, at or above \<open>beta\<close> a lower bound, strictly inside the
  window it is exact.
\<close>

definition bounds_ok :: "'v::linorder \<Rightarrow> 'v \<Rightarrow> 'v \<Rightarrow> 'v \<Rightarrow> bool" where
  "bounds_ok alpha beta m x =
     ((x \<le> alpha \<longrightarrow> m \<le> x) \<and> (alpha < x \<and> x < beta \<longrightarrow> x = m) \<and> (beta \<le> x \<longrightarrow> x \<le> m))"

section \<open>The action selector\<close>

text \<open>
  Python's exceptions that the modelled code can raise. \<open>random.choice\<close> raises
  \<open>IndexError\<close> on an empty sequence; otherwise it returns some element, here the
  one at the position the random source \<open>r\<close> selects.
\<close>

datatype error = IndexError | ZeroDivisionError | ValueError | AttributeError | AssertionError

definition choice :: "'a list \<Rightarrow> nat \<Rightarrow> error + 'a" where
  "choice xs r = (if xs = [] then Inl IndexError else Inr (xs ! (r mod length xs)))"

definition SEARCH_DEPTH :: int where
  "SEARCH_DEPTH = 5"

text \<open>
  \<open>CustomPlayer.get_action\<close>. \<open>get_action_branch\<close> is the test of its \<open>if\<close>: which
  of the two arms runs and, for the second, the arguments \<open>alpha_beta_search\<close> is
  called with (the call of \<open>monte_carlo_tree_search\<close> is commented out in the source).
  \<open>get_action\<close> returns the queue after the \<open>put\<close>; an entry \<open>None\<close> is Python's
  \<open>None\<close>.
\<close>

datatype 's delegate = Opening_random | Alpha_beta 's int

definition get_action_branch :: "('s, 'a) game \<Rightarrow> 's \<Rightarrow> 's delegate" where
  "get_action_branch g state =
     (if ply_count g state < 2 then Opening_random else Alpha_beta state SEARCH_DEPTH)"

definition get_action :: "('s, 'a) game \<Rightarrow> int \<Rightarrow> nat \<Rightarrow> 's \<Rightarrow> 'a option list \<Rightarrow> error + 'a option list" where
  "get_action g pid r state queue =
     (case get_action_branch g state of
        Opening_random \<Rightarrow>
          (case choice (actions g state) r of
             Inl e \<Rightarrow> Inl e
           | Inr a \<Rightarrow> Inr (queue @ [Some a]))
      | Alpha_beta st depth \<Rightarrow> Inr (queue @ [alpha_beta_search g pid st depth]))"

section \<open>A concrete game\<close>

text \<open>
  A small instance of the game state capability, used to run the searchers on concrete
  inputs. A state \<open>(n, p, k)\<close> is a pile of \<open>n\<close> tokens with player \<open>p\<close> to move after
  \<open>k\<close> plies; a move takes one or two tokens; the state is terminal when the pile is
  empty, and the player to move there, who has no move, has lost: \<open>utility\<close> is
  \<open>+inf\<close> for the other player and \<open>-inf\<close> for the mover, and 0 at states that are
  not terminal, as in the \<open>isolation\<close> library.
\<close>

definition take_game :: "(nat \<times> int \<times> int, nat) game" where
  "take_game =
     \<lparr> actions = (\<lambda>(n, p, k). if n = 0 then [] else if n = 1 then [1] else [1, 2]),
       result = (\<lambda>(n, p, k) a. (n - a, 1 - p, k + 1)),
       terminal_test = (\<lambda>(n, p, k). n = 0),
       utility = (\<lambda>(n, p, k) pid. if n = 0 then (if pid = p then NegInf else PosInf) else Fin 0),
       player = (\<lambda>(n, p, k). p),
       ply_count = (\<lambda>(n, p, k). k),
       liberties_of = (\<lambda>(n, p, k) q. if n = 0 then [] else if n = 1 then [1] else [1, 2]) \<rparr>"

section \<open>The board game state of the multi-agent exercise\<close>

text \<open>
  The class \<open>GameState\<close> of \<open>multiagent environments/solution.py\<close>: a board of
  \<open>X_DIM\<close> columns of \<open>Y_DIM\<close> cells (0 open, 1 blocked), the index of the active
  player and the two players' locations (\<open>None\<close> before the first placement).
\<close>

definition X_DIM :: int where "X_DIM = 3"
definition Y_DIM :: int where "Y_DIM = 2"

definition DIRECTIONS :: "(int \<times> int) list" where
  "DIRECTIONS = [(1, 0), (1, -1), (0, -1), (-1, -1), (-1, 0), (-1, 1), (0, 1), (1, 1)]"

record GameState =
  board :: "int list list"
  active_players_index :: int
  player_locations :: "(int \<times> int) option list"

definition GameState_init :: GameState where
  "GameState_init =
     \<lparr> board = [[0, 0], [0, 0], [0, 1]], active_players_index = 0,
       player_locations = [None, None] \<rparr>"

text \<open>
  \<open>GameState.liberties\<close>. \<open>ray\<close> is the \<open>while\<close> loop for one direction: it walks
  from the current cell while the next cell is on the board and stops at a blocked cell.
  Every direction in \<open>DIRECTIONS\<close> moves; for a step of \<open>(0, 0)\<close>, which the source
  never passes, its loop would not advance, and \<open>ray\<close> returns no cell.
\<close>

function ray :: "int list list \<Rightarrow> int \<times> int \<Rightarrow> int \<times> int \<Rightarrow> (int \<times> int) list" where
  "ray b (current_x, current_y) (dx, dy) =
     (if (dx, dy) \<noteq> (0, 0)
         \<and> 0 \<le> current_x + dx \<and> current_x + dx < X_DIM
         \<and> 0 \<le> current_y + dy \<and> current_y + dy < Y_DIM
      then (if b ! nat (current_x + dx) ! nat (current_y + dy) \<noteq> 0 then []
            else (current_x + dx, current_y + dy) # ray b (current_x + dx, current_y + dy) (dx, dy))
      else [])"
  by pat_completeness auto
termination
  by (relation "measure (\<lambda>(b, (cx, cy), (dx, dy)).
        nat (if 0 < dx then X_DIM - cx else if dx < 0 then cx + 1
             else if 0 < dy then Y_DIM - cy else cy + 1))")
    auto

declare ray.simps [simp del]

definition liberties :: "GameState \<Rightarrow> (int \<times> int) option \<Rightarrow> (int \<times> int) list" where
  "liberties self loc =
     (case loc of
        None \<Rightarrow> [(x, y). x \<leftarrow> [0..X_DIM - 1], y \<leftarrow> [0..Y_DIM - 1], board self ! nat x ! nat y = 0]
      | Some l \<Rightarrow> concat (map (ray (board self) l) DIRECTIONS))"

definition GameState_actions :: "GameState \<Rightarrow> (int \<times> int) list" where
  "GameState_actions self = liberties self (player_locations self ! nat (active_players_index self))"

definition GameState_player :: "GameState \<Rightarrow> int" where
  "GameState_player self = active_players_index self"

definition GameState_terminal_test :: "GameState \<Rightarrow> bool" where
  "GameState_terminal_test self =
     (liberties self (player_locations self ! 0) = [] \<or> liberties self (player_locations self ! 1) = [])"

text \<open>
  \<open>GameState.result\<close>. The \<open>assert\<close> raises \<open>AssertionError\<close> for an action that is
  not in \<open>actions()\<close> (the failure the specification calls IllegalActionError).
  Otherwise \<open>deepcopy(self)\<close> gives the new state its own board and location lists,
  and the three assignments write to the copy only. The function returns the receiver
  as it is after the call together with the outcome.
\<close>

definition GameState_result :: "GameState \<Rightarrow> int \<times> int \<Rightarrow> GameState \<times> (error + GameState)" where
  "GameState_result self action =
     (if action \<notin> set (GameState_actions self) then (self, Inl AssertionError)
      else (self, Inr
        \<lparr> board = (board self)[nat (fst action) := (board self ! nat (fst action))[nat (snd action) := 1]],
          active_players_index = (if active_players_index self = 0 then 1 else 0),
          player_locations = (player_locations self)[nat (active_players_index self) := Some action] \<rparr>))"

text \<open>
  Cells on the board, the content of a cell, and the shape every state built by the
  constructor and \<open>result\<close> has.
\<close>

definition in_board :: "int \<times> int \<Rightarrow> bool" where
  "in_board c = (0 \<le> fst c \<and> fst c < X_DIM \<and> 0 \<le> snd c \<and> snd c < Y_DIM)"

definition cell :: "GameState \<Rightarrow> int \<times> int \<Rightarrow> int" where
  "cell self c = board self ! nat (fst c) ! nat (snd c)"

definition wf_state :: "GameState \<Rightarrow> bool" where
  "wf_state self =
     (length (board self) = nat X_DIM \<and> (\<forall>row \<in> set (board self). length row = nat Y_DIM)
      \<and> (active_players_index self = 0 \<or> active_players_index self = 1)
      \<and> length (player_locations self) = 2)"

section \<open>Monte-Carlo tree search\<close>

text \<open>
  The search tree of \<open>monte_carlo_tree_search\<close>. The source's \<open>Node\<close> objects refer
  to each other (\<open>parentNode\<close>, \<open>childNodes\<close>) and are updated in place, so the model
  keeps them in a store: the tree is the list of all nodes created so far, a node is
  referred to by its position in the list, the root is node 0, and a new node is
  appended. \<open>numberOfVisits\<close> and \<open>qValue\<close> are floats in the source that only ever
  hold whole numbers; the UCT score is computed over the reals, where the source uses
  IEEE doubles.
\<close>

definition EXPLORATION_WEIGHT :: real where "EXPLORATION_WEIGHT = 1.7"
definition SEARCH_TIME :: real where "SEARCH_TIME = 150"
definition SEARCH_TIME_WITH_SAFETY :: real where "SEARCH_TIME_WITH_SAFETY = 0.5"

record ('s, 'a) node =
  action :: "'a option"
  parentNode :: "nat option"
  gameState :: 's
  childNodes :: "nat list"
  qValue :: int
  numberOfVisits :: nat
  openActions :: "'a list"

type_synonym ('s, 'a) tree = "('s, 'a) node list"

definition Node :: "('s, 'a) game \<Rightarrow> 's \<Rightarrow> 'a option \<Rightarrow> nat option \<Rightarrow> ('s, 'a) node" where
  "Node g game_state act parent =
     \<lparr> action = act, parentNode = parent, gameState = game_state, childNodes = [],
       qValue = 0, numberOfVisits = 0, openActions = actions g game_state \<rparr>"

definition is_fully_expanded :: "('s, 'a) node \<Rightarrow> bool" where
  "is_fully_expanded n = (length (openActions n) = 0)"

text \<open>
  \<open>Node.expand\<close>: \<open>random.choice\<close> picks the move (\<open>r\<close> is what the random source
  delivers), \<open>remove\<close> deletes its first occurrence, and the child becomes the last
  node of the store.
\<close>

definition expand :: "('s, 'a) game \<Rightarrow> ('s, 'a) tree \<Rightarrow> nat \<Rightarrow> nat \<Rightarrow> error + ('s, 'a) tree \<times> nat" where
  "expand g t i r =
     (case choice (openActions (t ! i)) r of
        Inl e \<Rightarrow> Inl e
      | Inr move \<Rightarrow>
          Inr (t[i := (t ! i)\<lparr> openActions := remove1 move (openActions (t ! i)),
                               childNodes := childNodes (t ! i) @ [length t] \<rparr>]
                 @ [Node g (result g (gameState (t ! i)) move) (Some move) (Some i)],
               length t))"

text \<open>
  \<open>Node.best_child\<close>. \<open>uct\<close> is the score of one child as the source evaluates it:
  the division by \<open>childNode.numberOfVisits\<close> comes first and raises
  \<open>ZeroDivisionError\<close> at 0, then \<open>math.log(self.numberOfVisits)\<close> raises
  \<open>ValueError\<close> at 0. \<open>max_uct\<close> starts at \<open>float("-inf")\<close>, here \<open>None\<close>, below
  every score; \<open>best_child\<close> starts at \<open>None\<close>.
\<close>

definition uct :: "('s, 'a) tree \<Rightarrow> nat \<Rightarrow> nat \<Rightarrow> error + real" where
  "uct t i c =
     (if numberOfVisits (t ! c) = 0 then Inl ZeroDivisionError
      else if numberOfVisits (t ! i) = 0 then Inl ValueError
      else Inr (real_of_int (qValue (t ! c)) / real (numberOfVisits (t ! c))
                + EXPLORATION_WEIGHT
                  * sqrt (2 * ln (real (numberOfVisits (t ! i))) / real (numberOfVisits (t ! c)))))"

fun best_child_loop :: "('s, 'a) tree \<Rightarrow> nat \<Rightarrow> nat list \<Rightarrow> real option \<Rightarrow> nat option \<Rightarrow> error + nat option" where
  "best_child_loop t i [] max_uct best = Inr best"
| "best_child_loop t i (c # cs) max_uct best =
     (case uct t i c of
        Inl e \<Rightarrow> Inl e
      | Inr u \<Rightarrow>
          (if (case max_uct of None \<Rightarrow> True | Some m \<Rightarrow> m < u)
           then best_child_loop t i cs (Some u) (Some c)
           else best_child_loop t i cs max_uct best))"

definition best_child :: "('s, 'a) tree \<Rightarrow> nat \<Rightarrow> error + nat option" where
  "best_child t i = best_child_loop t i (childNodes (t ! i)) None None"

text \<open>
  \<open>Node.rollout\<close> with its helpers. The random source is a list of numbers, one for
  each \<open>random.choice\<close>; the loop returns the terminal state it reached and the numbers
  left over, and \<open>None\<close> when the list is used up before a terminal state is reached
  (the simulation is not finished). \<open>Node.result\<close> is the static method that scores
  the terminal state.
\<close>

definition non_terminal :: "('s, 'a) game \<Rightarrow> 's \<Rightarrow> bool" where
  "non_terminal g game_state = (\<not> terminal_test g game_state)"

definition rollout_policy :: "'a list \<Rightarrow> nat \<Rightarrow> error + 'a" where
  "rollout_policy acts r = choice acts r"

definition is_a_win :: "('s, 'a) game \<Rightarrow> 's \<Rightarrow> bool" where
  "is_a_win g game_state = (utility g game_state (1 - player g game_state) = PosInf)"

definition is_a_loss :: "('s, 'a) game \<Rightarrow> 's \<Rightarrow> bool" where
  "is_a_loss g game_state = (utility g game_state (1 - player g game_state) = NegInf)"

definition Node_result :: "('s, 'a) game \<Rightarrow> 's \<Rightarrow> int" where
  "Node_result g game_state =
     (if is_a_win g game_state then 1 else if is_a_loss g game_state then - 1 else 0)"

fun rollout_loop :: "('s, 'a) game \<Rightarrow> 's \<Rightarrow> nat list \<Rightarrow> (error + 's \<times> nat list) option" where
  "rollout_loop g current_game_state [] =
     (if non_terminal g current_game_state then None else Some (Inr (current_game_state, [])))"
| "rollout_loop g current_game_state (r # rnd) =
     (if non_terminal g current_game_state then
        (case rollout_policy (actions g current_game_state) r of
           Inl e \<Rightarrow> Some (Inl e)
         | Inr next_action \<Rightarrow> rollout_loop g (result g current_game_state next_action) rnd)
      else Some (Inr (current_game_state, r # rnd)))"

definition rollout :: "('s, 'a) game \<Rightarrow> ('s, 'a) tree \<Rightarrow> nat \<Rightarrow> nat list \<Rightarrow> (error + int \<times> nat list) option" where
  "rollout g t i rnd =
     (case rollout_loop g (gameState (t ! i)) rnd of
        None \<Rightarrow> None
      | Some (Inl e) \<Rightarrow> Some (Inl e)
      | Some (Inr (current_game_state, rnd')) \<Rightarrow> Some (Inr (Node_result g current_game_state, rnd')))"

text \<open>
  \<open>Node.backpropagate\<close>, recursive along the \<open>parentNode\<close> references, and
  \<open>CustomPlayer.traverse\<close>, a loop that descends along \<open>best_child\<close>. Neither
  terminates on an arbitrary store (a store with a cycle), so both are partial
  functions: \<open>None\<close> stands for not returning. Calling \<open>best_child\<close> on a node without
  children returns \<open>None\<close>, and the next loop test reads \<open>None.gameState\<close>.
\<close>

partial_function (option) backpropagate :: "('s, 'a) tree \<Rightarrow> nat \<Rightarrow> int \<Rightarrow> ('s, 'a) tree option" where
  "backpropagate t i res =
     (case parentNode (t ! i) of
        None \<Rightarrow>
          Some (t[i := (t ! i)\<lparr> numberOfVisits := numberOfVisits (t ! i) + 1,
                               qValue := qValue (t ! i) + res \<rparr>])
      | Some p \<Rightarrow>
          backpropagate
            (t[i := (t ! i)\<lparr> numberOfVisits := numberOfVisits (t ! i) + 1,
                              qValue := qValue (t ! i) + res \<rparr>])
            p (- res))"

partial_function (option) traverse ::
    "('s, 'a) game \<Rightarrow> ('s, 'a) tree \<Rightarrow> nat \<Rightarrow> nat list \<Rightarrow> (error + ('s, 'a) tree \<times> nat \<times> nat list) option" where
  "traverse g t node_to_process rnd =
     (if non_terminal g (gameState (t ! node_to_process)) then
        (if \<not> is_fully_expanded (t ! node_to_process) then
           (case rnd of
              [] \<Rightarrow> None
            | r # rnd' \<Rightarrow>
                (case expand g t node_to_process r of
                   Inl e \<Rightarrow> Some (Inl e)
                 | Inr (t', child_node) \<Rightarrow> Some (Inr (t', child_node, rnd'))))
         else
           (case best_child t node_to_process of
              Inl e \<Rightarrow> Some (Inl e)
            | Inr None \<Rightarrow> Some (Inl AttributeError)
            | Inr (Some c) \<Rightarrow> traverse g t c rnd))
      else Some (Inr (t, node_to_process, rnd)))"

text \<open>
  \<open>CustomPlayer.monte_carlo_tree_search\<close>. \<open>iteration\<close> is the body of its \<open>while\<close>
  loop. The clock is the list of the values successive calls of \<open>time.time()\<close> return:
  the first is \<open>start_time\<close>, each loop test takes the next one; \<open>None\<close> when the
  list is used up before a test fails. \<open>mcts_loop\<close> counts the completed iterations
  in \<open>k\<close>, which is not a variable of the source, and returns the tree with it.
\<close>

definition iteration :: "('s, 'a) game \<Rightarrow> ('s, 'a) tree \<Rightarrow> nat list \<Rightarrow> (error + ('s, 'a) tree \<times> nat list) option" where
  "iteration g t rnd =
     (case traverse g t 0 rnd of
        None \<Rightarrow> None
      | Some (Inl e) \<Rightarrow> Some (Inl e)
      | Some (Inr (t1, leaf_node, rnd1)) \<Rightarrow>
          (case rollout g t1 leaf_node rnd1 of
             None \<Rightarrow> None
           | Some (Inl e) \<Rightarrow> Some (Inl e)
           | Some (Inr (simulation_result, rnd2)) \<Rightarrow>
               (case backpropagate t1 leaf_node simulation_result of
                  None \<Rightarrow> None
                | Some t2 \<Rightarrow> Some (Inr (t2, rnd2)))))"

fun mcts_loop ::
    "('s, 'a) game \<Rightarrow> real \<Rightarrow> int \<Rightarrow> real list \<Rightarrow> ('s, 'a) tree \<Rightarrow> nat list \<Rightarrow> nat \<Rightarrow> (error + ('s, 'a) tree \<times> nat) option" where
  "mcts_loop g start_time search_time [] t rnd k = None"
| "mcts_loop g start_time search_time (now # clock) t rnd k =
     (if (now - start_time) * 1000 \<le> real_of_int search_time then
        (case iteration g t rnd of
           None \<Rightarrow> None
         | Some (Inl e) \<Rightarrow> Some (Inl e)
         | Some (Inr (t', rnd')) \<Rightarrow> mcts_loop g start_time search_time clock t' rnd' (k + 1))
      else Some (Inr (t, k)))"

definition mcts_tree ::
    "('s, 'a) game \<Rightarrow> 's \<Rightarrow> real \<Rightarrow> real list \<Rightarrow> nat list \<Rightarrow> (error + ('s, 'a) tree \<times> nat) option" where
  "mcts_tree g game_state search_time clock rnd =
     (case clock of
        [] \<Rightarrow> None
      | start_time # clock' \<Rightarrow>
          mcts_loop g start_time \<lceil>search_time * SEARCH_TIME_WITH_SAFETY\<rceil> clock'
            [Node g game_state None None] rnd 0)"

definition monte_carlo_tree_search ::
    "('s, 'a) game \<Rightarrow> 's \<Rightarrow> real \<Rightarrow> real list \<Rightarrow> nat list \<Rightarrow> (error + 'a option) option" where
  "monte_carlo_tree_search g game_state search_time clock rnd =
     (case mcts_tree g game_state search_time clock rnd of
        None \<Rightarrow> None
      | Some (Inl e) \<Rightarrow> Some (Inl e)
      | Some (Inr (t, k)) \<Rightarrow>
          (case best_child t 0 of
             Inl e \<Rightarrow> Some (Inl e)
           | Inr None \<Rightarrow> Some (Inl AttributeError)
           | Inr (Some c) \<Rightarrow> Some (Inr (action (t ! c)))))"

text \<open>The tree after one iteration on the concrete game from a pile of two tokens.\<close>

definition T1 :: "(nat \<times> int \<times> int, nat) tree" where
  "T1 = [\<lparr> action = None, parentNode = None, gameState = (2, 0, 0), childNodes = [1],
            qValue = - 1, numberOfVisits = 1, openActions = [2] \<rparr>,
         \<lparr> action = Some 1, parentNode = Some 0, gameState = (1, 1, 1), childNodes = [],
            qValue = 1, numberOfVisits = 1, openActions = [1] \<rparr>]"

subsection \<open>Invariants of the search tree\<close>

text \<open>
  Properties of the store that every iteration of the loop preserves; they are not part
  of the source. \<open>tree_ok\<close>: the store is a tree rooted at node 0, every other node
  has a parent of smaller index, and the entries of \<open>childNodes\<close> are nodes of the store
  whose \<open>parentNode\<close> is the node that lists them. \<open>moves_ok\<close>: the untried actions
  and the children of a node together account for the actions of its state, and each
  child was reached by one of them.
\<close>

definition tree_ok :: "('s, 'a) tree \<Rightarrow> bool" where
  "tree_ok t =
     (t \<noteq> [] \<and> parentNode (t ! 0) = None
      \<and> (\<forall>c < length t. 0 < c \<longrightarrow> (\<exists>p < c. parentNode (t ! c) = Some p))
      \<and> (\<forall>i < length t. \<forall>c \<in> set (childNodes (t ! i)).
            i < c \<and> c < length t \<and> parentNode (t ! c) = Some i))"

definition moves_ok :: "('s, 'a) game \<Rightarrow> ('s, 'a) tree \<Rightarrow> bool" where
  "moves_ok g t =
     (\<forall>i < length t.
        length (openActions (t ! i)) + length (childNodes (t ! i))
          = length (actions g (gameState (t ! i)))
        \<and> set (openActions (t ! i)) \<subseteq> set (actions g (gameState (t ! i)))
        \<and> (\<forall>c \<in> set (childNodes (t ! i)).
              \<exists>a \<in> set (actions g (gameState (t ! i))). action (t ! c) = Some a))"

text \<open>
  \<open>visits_ok t k\<close> is the visit-count invariant after \<open>k\<close> completed iterations.
  \<open>visits_mid t k i\<close> is what holds in the middle of a \<open>backpropagate\<close> that is about
  to update node \<open>i\<close>: the nodes below \<open>i\<close> on the path are already counted, so a
  child of \<open>i\<close> may be one visit ahead of it, and the leaf just created may still have
  no visit.
\<close>

definition visits_mid :: "('s, 'a) tree \<Rightarrow> nat \<Rightarrow> nat \<Rightarrow> bool" where
  "visits_mid t k i =
     (numberOfVisits (t ! 0) = k
      \<and> (\<forall>c < length t. 0 < c \<and> c \<noteq> i \<longrightarrow> 1 \<le> numberOfVisits (t ! c))
      \<and> (\<forall>c < length t. \<forall>p. parentNode (t ! c) = Some p \<longrightarrow>
            numberOfVisits (t ! c) \<le> numberOfVisits (t ! p) + (if p = i then 1 else 0)))"

definition visits_ok :: "('s, 'a) tree \<Rightarrow> nat \<Rightarrow> bool" where
  "visits_ok t k =
     (numberOfVisits (t ! 0) = k
      \<and> (\<forall>c < length t. 0 < c \<longrightarrow> 1 \<le> numberOfVisits (t ! c))
      \<and> (\<forall>c < length t. \<forall>p. parentNode (t ! c) = Some p \<longrightarrow>
            numberOfVisits (t ! c) \<le> numberOfVisits (t ! p)))"

text \<open>\<open>same_struct\<close>: two stores differ at most in \<open>qValue\<close> and \<open>numberOfVisits\<close>.\<close>

definition same_struct :: "('s, 'a) tree \<Rightarrow> ('s, 'a) tree \<Rightarrow> bool" where
  "same_struct t t' =
     (length t' = length t
      \<and> (\<forall>j < length t. action (t' ! j) = action (t ! j) \<and> parentNode (t' ! j) = parentNode (t ! j)
            \<and> gameState (t' ! j) = gameState (t ! j) \<and> childNodes (t' ! j) = childNodes (t ! j)
            \<and> openActions (t' ! j) = openActions (t ! j)))"

text \<open>
  The trees the loop of \<open>monte_carlo_tree_search\<close> can hold: \<open>mcts_reachable g s t k\<close>
  when \<open>t\<close> is the tree after \<open>k\<close> completed iterations of the loop body, started from
  the root node of state \<open>s\<close>, for some values of the random source.
\<close>

inductive mcts_reachable :: "('s, 'a) game \<Rightarrow> 's \<Rightarrow> ('s, 'a) tree \<Rightarrow> nat \<Rightarrow> bool"
  for g :: "('s, 'a) game" and game_state :: 's where
  root: "mcts_reachable g game_state [Node g game_state None None] 0"
| step: "mcts_reachable g game_state t k \<Longrightarrow> iteration g t rnd = Some (Inr (t', rnd'))
          \<Longrightarrow> mcts_reachable g game_state t' (Suc k)"

text \<open>The trees after the second and the third iteration of the same run.\<close>

definition T2 :: "(nat \<times> int \<times> int, nat) tree" where
  "T2 = [\<lparr> action = None, parentNode = None, gameState = (2, 0, 0), childNodes = [1, 2],
            qValue = - 2, numberOfVisits = 2, openActions = [] \<rparr>,
         \<lparr> action = Some 1, parentNode = Some 0, gameState = (1, 1, 1), childNodes = [],
            qValue = 1, numberOfVisits = 1, openActions = [1] \<rparr>,
         \<lparr> action = Some 2, parentNode = Some 0, gameState = (0, 1, 1), childNodes = [],
            qValue = 1, numberOfVisits = 1, openActions = [] \<rparr>]"

definition T3 :: "(nat \<times> int \<times> int, nat) tree" where
  "T3 = [\<lparr> action = None, parentNode = None, gameState = (2, 0, 0), childNodes = [1, 2],
            qValue = - 1, numberOfVisits = 3, openActions = [] \<rparr>,
         \<lparr> action = Some 1, parentNode = Some 0, gameState = (1, 1, 1), childNodes = [3],
            qValue = 0, numberOfVisits = 2, openActions = [] \<rparr>,
         \<lparr> action = Some 2, parentNode = Some 0, gameState = (0, 1, 1), childNodes = [],
            qValue = 1, numberOfVisits = 1, openActions = [] \<rparr>,
         \<lparr> action = Some 1, parentNode = Some 1, gameState = (0, 0, 2), childNodes = [],
            qValue = 1, numberOfVisits = 1, openActions = [] \<rparr>]"

section \<open>Proofs: alpha-beta search\<close>

lemma ext_least [simp]: "NegInf \<le> (x::ext)" by simp
lemma ext_greatest [simp]: "(x::ext) \<le> PosInf" by (cases x) auto
lemma ext_max_NegInf [simp]: "max NegInf (x::ext) = x" "max x NegInf = x"
  by (simp_all add: max_absorb1 max_absorb2)
lemma ext_min_PosInf [simp]: "min PosInf (x::ext) = x" "min x PosInf = x"
  by (simp_all add: min_absorb1 min_absorb2)

lemma fold_max_max: "fold (\<lambda>a v. max v (f a)) as (v::ext) = max v (fold (\<lambda>a v. max v (f a)) as NegInf)"
proof (induction as arbitrary: v)
  case Nil show ?case by simp
next
  case (Cons a as)
  have "fold (\<lambda>a v. max v (f a)) (a # as) v = fold (\<lambda>a v. max v (f a)) as (max v (f a))" by simp
  also have "\<dots> = max (max v (f a)) (fold (\<lambda>a v. max v (f a)) as NegInf)" by (rule Cons)
  also have "\<dots> = max v (max (f a) (fold (\<lambda>a v. max v (f a)) as NegInf))" by (rule max.assoc)
  also have "max (f a) (fold (\<lambda>a v. max v (f a)) as NegInf) = fold (\<lambda>a v. max v (f a)) as (f a)"
    by (rule Cons[symmetric])
  also have "fold (\<lambda>a v. max v (f a)) as (f a) = fold (\<lambda>a v. max v (f a)) (a # as) NegInf" by simp
  finally show ?case .
qed

lemma fold_min_min: "fold (\<lambda>a v. min v (f a)) as (v::ext) = min v (fold (\<lambda>a v. min v (f a)) as PosInf)"
proof (induction as arbitrary: v)
  case Nil show ?case by simp
next
  case (Cons a as)
  have "fold (\<lambda>a v. min v (f a)) (a # as) v = fold (\<lambda>a v. min v (f a)) as (min v (f a))" by simp
  also have "\<dots> = min (min v (f a)) (fold (\<lambda>a v. min v (f a)) as PosInf)" by (rule Cons)
  also have "\<dots> = min v (min (f a) (fold (\<lambda>a v. min v (f a)) as PosInf))" by (rule min.assoc)
  also have "min (f a) (fold (\<lambda>a v. min v (f a)) as PosInf) = fold (\<lambda>a v. min v (f a)) as (f a)"
    by (rule Cons[symmetric])
  also have "fold (\<lambda>a v. min v (f a)) as (f a) = fold (\<lambda>a v. min v (f a)) (a # as) PosInf" by simp
  finally show ?case .
qed

lemma bounds_okI:
  "(x \<le> alpha \<Longrightarrow> m \<le> x) \<Longrightarrow> (alpha < x \<Longrightarrow> x < beta \<Longrightarrow> x = m) \<Longrightarrow> (beta \<le> x \<Longrightarrow> x \<le> m)
   \<Longrightarrow> bounds_ok alpha beta m x"
  by (simp add: bounds_ok_def)

lemma bounds_okD:
  assumes "bounds_ok alpha beta m x"
  shows "x \<le> alpha \<Longrightarrow> m \<le> x" and "alpha < x \<Longrightarrow> x < beta \<Longrightarrow> x = m" and "beta \<le> x \<Longrightarrow> x \<le> m"
  using assms by (simp_all add: bounds_ok_def)

lemma max_stop:
  assumes ab: "alpha < beta" and v: "v \<le> alpha" and x: "bounds_ok alpha beta m x"
    and b: "beta \<le> max v x"
  shows "bounds_ok alpha beta (max (max v m) M) (max v x)"
proof -
  have vb: "v < beta" using v ab by (rule le_less_trans)
  have bx: "beta \<le> x" using b vb by (simp add: max_def split: if_splits)
  have xm: "x \<le> m" using bounds_okD(3)[OF x bx] .
  have "v \<le> x" using less_le_trans[OF vb bx] by (rule less_imp_le)
  then have vx: "max v x = x" by (rule max_absorb2)
  have xT: "x \<le> max (max v m) M" using xm by (simp add: le_max_iff_disj)
  have ax: "alpha < x" using ab bx by (rule less_le_trans)
  show ?thesis unfolding vx
  proof (rule bounds_okI)
    assume "x \<le> alpha" with ax show "max (max v m) M \<le> x" by simp
  next
    assume "x < beta" with bx show "x = max (max v m) M" by simp
  next
    show "x \<le> max (max v m) M" by (rule xT)
  qed
qed

lemma max_step:
  assumes ab: "alpha < beta" and v: "v \<le> alpha" and x: "bounds_ok alpha beta m x"
    and nb: "\<not> beta \<le> max v x"
    and ih: "bounds_ok (max alpha (max v x)) beta (max (max v x) M) R"
  shows "bounds_ok alpha beta (max (max v m) M) R"
proof (cases "x \<le> alpha")
  case True
  define T where "T = max (max v m) M"
  define T' where "T' = max (max v x) M"
  have mx: "m \<le> x" using bounds_okD(1)[OF x True] .
  have a: "max alpha (max v x) = alpha" using True v by (simp add: max_def)
  have ih': "bounds_ok alpha beta T' R" using ih by (simp add: a T'_def)
  have le: "T \<le> T'" unfolding T_def T'_def by (intro max.mono order_refl mx)
  have eq: "T = T'" if "alpha < T'"
  proof -
    have vx: "max v x \<le> alpha" using True v by simp
    have vm: "max v m \<le> alpha" using mx True v by simp
    have aM: "alpha < M"
    proof (rule ccontr)
      assume "\<not> alpha < M"
      then have "M \<le> alpha" by simp
      with vx have "T' \<le> alpha" unfolding T'_def by simp
      with that show False by simp
    qed
    have "max v x \<le> M" using le_less_trans[OF vx aM] by (rule less_imp_le)
    then have t': "T' = M" unfolding T'_def by (rule max_absorb2)
    have "max v m \<le> M" using le_less_trans[OF vm aM] by (rule less_imp_le)
    then have "T = M" unfolding T_def by (rule max_absorb2)
    with t' show ?thesis by simp
  qed
  show ?thesis unfolding T_def[symmetric]
  proof (rule bounds_okI)
    assume "R \<le> alpha"
    then have "T' \<le> R" by (rule bounds_okD(1)[OF ih'])
    with le show "T \<le> R" by (rule order_trans)
  next
    assume r: "alpha < R" "R < beta"
    then have "R = T'" by (rule bounds_okD(2)[OF ih'])
    with r eq show "R = T" by simp
  next
    assume r: "beta \<le> R"
    then have rt: "R \<le> T'" by (rule bounds_okD(3)[OF ih'])
    have "alpha < R" using ab r by (rule less_le_trans)
    then have "alpha < T'" using rt by (rule less_le_trans)
    with eq rt show "R \<le> T" by simp
  qed
next
  case False
  define T where "T = max (max v m) M"
  have ax: "alpha < x" using False by simp
  have xb: "x < beta" using nb by (simp add: max_def split: if_splits)
  have xm: "x = m" using bounds_okD(2)[OF x ax xb] .
  have vx': "v \<le> x" using le_less_trans[OF v ax] by (rule less_imp_le)
  have "max alpha (max v x) = max alpha x" using vx' by (simp add: max_absorb2)
  also have "\<dots> = x" using ax by (simp add: max_absorb2 less_imp_le)
  finally have a: "max alpha (max v x) = m" using xm by simp
  from ih have "bounds_ok m beta (max (max v x) M) R" by (simp only: a)
  then have ih': "bounds_ok m beta T R" unfolding T_def by (simp only: xm)
  have ge: "m \<le> T" unfolding T_def by (simp add: le_max_iff_disj)
  have am: "alpha < m" using ax xm by simp
  show ?thesis unfolding T_def[symmetric]
  proof (rule bounds_okI)
    assume "R \<le> alpha"
    then have "R \<le> m" using am by simp
    then show "T \<le> R" by (rule bounds_okD(1)[OF ih'])
  next
    assume r: "alpha < R" "R < beta"
    show "R = T"
    proof (cases "R \<le> m")
      case True
      then have "T \<le> R" by (rule bounds_okD(1)[OF ih'])
      with True ge show ?thesis by simp
    next
      case False
      then have "m < R" by simp
      then show ?thesis using r(2) by (rule bounds_okD(2)[OF ih'])
    qed
  next
    assume "beta \<le> R"
    then show "R \<le> T" by (rule bounds_okD(3)[OF ih'])
  qed
qed

lemma min_stop:
  assumes ab: "alpha < beta" and v: "beta \<le> v" and x: "bounds_ok alpha beta m x"
    and b: "min v x \<le> alpha"
  shows "bounds_ok alpha beta (min (min v m) M) (min v x)"
proof -
  have av: "alpha < v" using ab v by (rule less_le_trans)
  from b have "v \<le> alpha \<or> x \<le> alpha" by (simp only: min_le_iff_disj)
  with av have xa: "x \<le> alpha" by auto
  have mx: "m \<le> x" using bounds_okD(1)[OF x xa] .
  have "x \<le> v" using le_less_trans[OF xa av] by (rule less_imp_le)
  then have vx: "min v x = x" by (rule min_absorb2)
  have Tx: "min (min v m) M \<le> x" using mx by (simp add: min_le_iff_disj)
  have xb: "x < beta" using xa ab by (rule le_less_trans)
  show ?thesis unfolding vx
  proof (rule bounds_okI)
    show "min (min v m) M \<le> x" by (rule Tx)
  next
    assume "alpha < x" with xa show "x = min (min v m) M" by simp
  next
    assume "beta \<le> x" with xb show "x \<le> min (min v m) M" by simp
  qed
qed

lemma min_step:
  assumes ab: "alpha < beta" and v: "beta \<le> v" and x: "bounds_ok alpha beta m x"
    and nb: "\<not> min v x \<le> alpha"
    and ih: "bounds_ok alpha (min beta (min v x)) (min (min v x) M) R"
  shows "bounds_ok alpha beta (min (min v m) M) R"
proof (cases "beta \<le> x")
  case True
  define T where "T = min (min v m) M"
  define T' where "T' = min (min v x) M"
  have xm: "x \<le> m" using bounds_okD(3)[OF x True] .
  have b: "min beta (min v x) = beta" using True v by (simp add: min_def)
  have ih': "bounds_ok alpha beta T' R" using ih by (simp add: b T'_def)
  have le: "T' \<le> T" unfolding T_def T'_def by (intro min.mono order_refl xm)
  have eq: "T = T'" if "T' < beta"
  proof -
    have vx: "beta \<le> min v x" using True v by simp
    have vm: "beta \<le> min v m" using xm True v by simp
    have Mb: "M < beta"
    proof (rule ccontr)
      assume "\<not> M < beta"
      then have "beta \<le> M" by simp
      with vx have "beta \<le> T'" unfolding T'_def by simp
      with that show False by simp
    qed
    have "M \<le> min v x" using less_le_trans[OF Mb vx] by (rule less_imp_le)
    then have t': "T' = M" unfolding T'_def by (rule min_absorb2)
    have "M \<le> min v m" using less_le_trans[OF Mb vm] by (rule less_imp_le)
    then have "T = M" unfolding T_def by (rule min_absorb2)
    with t' show ?thesis by simp
  qed
  show ?thesis unfolding T_def[symmetric]
  proof (rule bounds_okI)
    assume r: "R \<le> alpha"
    then have tr: "T' \<le> R" by (rule bounds_okD(1)[OF ih'])
    have "R < beta" using r ab by (rule le_less_trans)
    then have "T' < beta" using tr by (rule le_less_trans[rotated])
    with eq tr show "T \<le> R" by simp
  next
    assume r: "alpha < R" "R < beta"
    then have "R = T'" by (rule bounds_okD(2)[OF ih'])
    with r eq show "R = T" by simp
  next
    assume "beta \<le> R"
    then have "R \<le> T'" by (rule bounds_okD(3)[OF ih'])
    then show "R \<le> T" using le by (rule order_trans)
  qed
next
  case False
  define T where "T = min (min v m) M"
  have xb: "x < beta" using False by simp
  have ax: "alpha < x" using nb by (simp add: min_def split: if_splits)
  have xm: "x = m" using bounds_okD(2)[OF x ax xb] .
  have xv: "x \<le> v" using less_le_trans[OF xb v] by (rule less_imp_le)
  have "min beta (min v x) = min beta x" using xv by (simp add: min_absorb2)
  also have "\<dots> = x" using xb by (simp add: min_absorb2 less_imp_le)
  finally have b: "min beta (min v x) = x" .
  from ih have "bounds_ok alpha x (min (min v x) M) R" by (simp only: b)
  then have ih': "bounds_ok alpha m T R" unfolding T_def by (simp only: xm)
  have ge: "T \<le> m" unfolding T_def by (simp add: min_le_iff_disj)
  have mb: "m < beta" using xb xm by simp
  show ?thesis unfolding T_def[symmetric]
  proof (rule bounds_okI)
    assume "R \<le> alpha"
    then show "T \<le> R" by (rule bounds_okD(1)[OF ih'])
  next
    assume r: "alpha < R" "R < beta"
    show "R = T"
    proof (cases "m \<le> R")
      case True
      then have "R \<le> T" by (rule bounds_okD(3)[OF ih'])
      with True ge show ?thesis by simp
    next
      case False
      then have "R < m" by simp
      with r(1) show ?thesis by (rule bounds_okD(2)[OF ih'])
    qed
  next
    assume "beta \<le> R"
    then have "m \<le> R" using mb by simp
    then show "R \<le> T" by (rule bounds_okD(3)[OF ih'])
  qed
qed


lemma bounds_ok_refl: "bounds_ok alpha beta m m"
  by (simp add: bounds_ok_def)

lemma alpha_beta_bounds:
  "alpha < beta \<Longrightarrow> bounds_ok alpha beta (minimax_min g pid s d) (min_value g pid s alpha beta d)"
  "alpha < beta \<Longrightarrow> beta \<le> v \<Longrightarrow>
     bounds_ok alpha beta
       (fold (\<lambda>a v. min v (minimax_max g pid (result g s a) (d - 1))) as v)
       (min_loop g pid s as v alpha beta d)"
  "alpha < beta \<Longrightarrow> bounds_ok alpha beta (minimax_max g pid s d) (max_value g pid s alpha beta d)"
  "alpha < beta \<Longrightarrow> v \<le> alpha \<Longrightarrow>
     bounds_ok alpha beta
       (fold (\<lambda>a v. max v (minimax_min g pid (result g s a) (d - 1))) as v)
       (max_loop g pid s as v alpha beta d)"
proof (induction g pid s alpha beta d and g pid s as v alpha beta d
         and g pid s alpha beta d and g pid s as v alpha beta d
       rule: min_value_min_loop_max_value_max_loop.induct)
  case (1 g pid s alpha beta depth)
  then show ?case
    by (simp add: bounds_ok_refl min_value.simps[of g pid s] minimax_min.simps[of g pid s])
next
  case (2 g pid s v alpha beta depth)
  show ?case by (simp add: bounds_ok_refl)
next
  case (3 g pid s a as v alpha beta depth)
  define x where "x = max_value g pid (result g s a) alpha beta (depth - 1)"
  define m where "m = minimax_max g pid (result g s a) (depth - 1)"
  define M where "M = fold (\<lambda>a v. min v (minimax_max g pid (result g s a) (depth - 1))) as PosInf"
  have bx: "bounds_ok alpha beta m x" unfolding m_def x_def by (rule "3.IH"(1)[OF "3.prems"(1)])
  have T: "fold (\<lambda>a v. min v (minimax_max g pid (result g s a) (depth - 1))) (a # as) v
             = min (min v m) M"
    unfolding M_def m_def by (simp add: fold_min_min[of _ _ "min v _"])
  show ?case
  proof (cases "min v x \<le> alpha")
    case True
    have "min_loop g pid s (a # as) v alpha beta depth = min v x"
      using True by (simp add: x_def Let_def)
    then show ?thesis unfolding T using min_stop[OF "3.prems"(1,2) bx True] by simp
  next
    case False
    have r: "min_loop g pid s (a # as) v alpha beta depth
               = min_loop g pid s as (min v x) alpha (min beta (min v x)) depth"
      using False by (simp add: x_def Let_def)
    have "alpha < min v x" using False by (simp only: not_le)
    with "3.prems"(1) have ab': "alpha < min beta (min v x)" by (metis min_less_iff_conj)
    have le': "min beta (min v x) \<le> min v x" by (rule min.cobounded2)
    have "bounds_ok alpha (min beta (min v x))
            (fold (\<lambda>a v. min v (minimax_max g pid (result g s a) (depth - 1))) as (min v x))
            (min_loop g pid s as (min v x) alpha (min beta (min v x)) depth)"
      using "3.IH"(2)[OF refl False[unfolded x_def] ab'[unfolded x_def] le'[unfolded x_def]]
      unfolding x_def .
    then have "bounds_ok alpha (min beta (min v x)) (min (min v x) M)
                 (min_loop g pid s as (min v x) alpha (min beta (min v x)) depth)"
      unfolding M_def by (simp add: fold_min_min[of _ _ "min v _"])
    from min_step[OF "3.prems"(1,2) bx False this] show ?thesis unfolding T r .
  qed
next
  case (4 g pid s alpha beta depth)
  then show ?case
    by (simp add: bounds_ok_refl max_value.simps[of g pid s] minimax_max.simps[of g pid s])
next
  case (5 g pid s v alpha beta depth)
  show ?case by (simp add: bounds_ok_refl)
next
  case (6 g pid s a as v alpha beta depth)
  define x where "x = min_value g pid (result g s a) alpha beta (depth - 1)"
  define m where "m = minimax_min g pid (result g s a) (depth - 1)"
  define M where "M = fold (\<lambda>a v. max v (minimax_min g pid (result g s a) (depth - 1))) as NegInf"
  have bx: "bounds_ok alpha beta m x" unfolding m_def x_def by (rule "6.IH"(1)[OF "6.prems"(1)])
  have T: "fold (\<lambda>a v. max v (minimax_min g pid (result g s a) (depth - 1))) (a # as) v
             = max (max v m) M"
    unfolding M_def m_def by (simp add: fold_max_max[of _ _ "max v _"])
  show ?case
  proof (cases "beta \<le> max v x")
    case True
    have "max_loop g pid s (a # as) v alpha beta depth = max v x"
      using True by (simp add: x_def Let_def)
    then show ?thesis unfolding T using max_stop[OF "6.prems"(1,2) bx True] by simp
  next
    case False
    have r: "max_loop g pid s (a # as) v alpha beta depth
               = max_loop g pid s as (max v x) (max alpha (max v x)) beta depth"
      using False by (simp add: x_def Let_def)
    have "max v x < beta" using False by (simp only: not_le)
    with "6.prems"(1) have ab': "max alpha (max v x) < beta" by (metis max_less_iff_conj)
    have le': "max v x \<le> max alpha (max v x)" by (rule max.cobounded2)
    have "bounds_ok (max alpha (max v x)) beta
            (fold (\<lambda>a v. max v (minimax_min g pid (result g s a) (depth - 1))) as (max v x))
            (max_loop g pid s as (max v x) (max alpha (max v x)) beta depth)"
      using "6.IH"(2)[OF refl False[unfolded x_def] ab'[unfolded x_def] le'[unfolded x_def]]
      unfolding x_def .
    then have "bounds_ok (max alpha (max v x)) beta (max (max v x) M)
                 (max_loop g pid s as (max v x) (max alpha (max v x)) beta depth)"
      unfolding M_def by (simp add: fold_max_max[of _ _ "max v _"])
    from max_step[OF "6.prems"(1,2) bx False this] show ?thesis unfolding T r .
  qed
qed


lemma ext_le_NegInf [simp]: "(x::ext) \<le> NegInf \<longleftrightarrow> x = NegInf" by (cases x) auto
lemma ext_PosInf_le [simp]: "PosInf \<le> (x::ext) \<longleftrightarrow> x = PosInf" by (cases x) auto

lemma fst_case3: "fst (case p of (bs, bm, tr) \<Rightarrow> (bs, bm, b # tr)) = fst p"
  by (cases p) auto
lemma mid_case3: "fst (snd (case p of (bs, bm, tr) \<Rightarrow> (bs, bm, b # tr))) = fst (snd p)"
  by (cases p) auto
lemma trace_case3: "snd (snd (case p of (bs, bm, tr) \<Rightarrow> (bs, bm, b # tr))) = b # snd (snd p)"
  by (cases p) auto

lemma root_step_value:
  assumes "bounds_ok bs PosInf m x \<or> bs = PosInf"
  shows "max bs x = max bs m"
proof (cases "bs = PosInf")
  case True
  then show ?thesis by (simp add: max_absorb1)
next
  case False
  with assms have b: "bounds_ok bs PosInf m x" by simp
  show ?thesis
  proof (cases "x \<le> bs")
    case True
    from bounds_okD(1)[OF b True] True have "m \<le> bs" by (rule order_trans)
    with True show ?thesis by (simp add: max_absorb1)
  next
    case nle: False
    then have l: "bs < x" by simp
    show ?thesis
    proof (cases "x = PosInf")
      case True
      then have "PosInf \<le> x" by simp
      from bounds_okD(3)[OF b this] True have "m = PosInf" by simp
      with True show ?thesis by simp
    next
      case False
      then have "x < PosInf" by (cases x) (auto simp: less_ext_def)
      from bounds_okD(2)[OF b l this] show ?thesis by simp
    qed
  qed
qed

lemma root_loop_value:
  "(bm = None \<longrightarrow> bs = NegInf) \<Longrightarrow>
   fst (root_loop g pid s as bs PosInf bs bm d)
     = fold (\<lambda>a v. max v (minimax_min g pid (result g s a) (d - 1))) as bs"
proof (induction as arbitrary: bs bm)
  case Nil
  show ?case by simp
next
  case (Cons a as)
  define x where "x = min_value g pid (result g s a) bs PosInf (d - 1)"
  define m where "m = minimax_min g pid (result g s a) (d - 1)"
  have "bounds_ok bs PosInf m x \<or> bs = PosInf"
  proof (cases "bs = PosInf")
    case False
    then have "bs < PosInf" by (cases bs) (auto simp: less_ext_def)
    then show ?thesis unfolding m_def x_def by (simp add: alpha_beta_bounds(1))
  qed simp
  then have mx: "max bs x = max bs m" by (rule root_step_value)
  show ?case
  proof (cases "bs < x")
    case True
    then have e: "max bs x = x" by (simp add: max_absorb2 less_imp_le)
    have "fst (root_loop g pid s (a # as) bs PosInf bs bm d)
            = fst (root_loop g pid s as x PosInf x (Some a) d)"
      using True by (simp add: Let_def x_def[symmetric] fst_case3 e)
    also have "\<dots> = fold (\<lambda>a v. max v (minimax_min g pid (result g s a) (d - 1))) as x"
      by (rule Cons.IH) simp
    finally show ?thesis using mx e by (simp add: m_def)
  next
    case False
    then have xb: "x \<le> bs" by simp
    then have e: "max bs x = bs" by (simp add: max_absorb1)
    show ?thesis
    proof (cases "bm = None")
      case True
      with Cons.prems have "bs = NegInf" by simp
      with xb have xn: "x = NegInf" by simp
      have xbs: "x = bs" using xn \<open>bs = NegInf\<close> by simp
      have "fst (root_loop g pid s (a # as) bs PosInf bs bm d)
              = fst (root_loop g pid s as (max bs x) PosInf x (Some a) d)"
        using False True by (simp add: Let_def x_def[symmetric] fst_case3)
      also have "\<dots> = fst (root_loop g pid s as bs PosInf bs (Some a) d)"
        by (simp only: xbs max.idem)
      also have "\<dots> = fold (\<lambda>a v. max v (minimax_min g pid (result g s a) (d - 1))) as bs"
        by (rule Cons.IH) simp
      finally show ?thesis using mx e by (simp add: m_def)
    next
      case nn: False
      have "fst (root_loop g pid s (a # as) bs PosInf bs bm d)
              = fst (root_loop g pid s as bs PosInf bs bm d)"
        using False nn by (cases bm) (simp_all add: Let_def x_def[symmetric] fst_case3 e)
      also have "\<dots> = fold (\<lambda>a v. max v (minimax_min g pid (result g s a) (d - 1))) as bs"
        by (rule Cons.IH) (simp add: nn)
      finally show ?thesis using mx e by (simp add: m_def)
    qed
  qed
qed

text \<open>
  Claim C3, as amended. For every state that is not terminal and every depth of at least
  1, the value the alpha-beta searcher computes for the root (the final \<open>best_score\<close>
  of \<open>alpha_beta_search\<close>, started with the window from minus to plus infinity) is the
  value plain depth-limited minimax without pruning computes for the same state and
  depth, with the same heuristic at depth 0 and the utility at terminal states.
\<close>

theorem alpha_beta_value_is_minimax:
  assumes "\<not> terminal_test g s" and "0 < depth"
  shows "alpha_beta_value g pid s depth = minimax_max g pid s depth"
  using assms
  by (simp add: alpha_beta_value_def alpha_beta_run_def root_loop_value
      minimax_max.simps[of g pid s])

theorem alpha_beta_value_is_minimax_witness:
  "\<not> terminal_test take_game (2, 0, 0) \<and> (0::int) < 5
   \<and> alpha_beta_value take_game 0 (2, 0, 0) 5 = minimax_max take_game 0 (2, 0, 0) 5"
proof -
  have nt: "\<not> terminal_test take_game (2, 0, 0)" by (simp add: take_game_def)
  have d: "(0::int) < 5" by simp
  from alpha_beta_value_is_minimax[OF nt d, of 0] nt d show ?thesis by blast
qed

text \<open>
  Claim C3 as stated, for every depth, fails at depth 0: the loop of
  \<open>alpha_beta_search\<close> has no depth test and always looks one move ahead, so from a
  pile of two tokens it finds the winning move, while depth-limited minimax stops at the
  root and returns the heuristic.
\<close>

theorem alpha_beta_depth_zero_counterexample:
  "\<not> terminal_test take_game (2, 0, 0)
   \<and> alpha_beta_value take_game 0 (2, 0, 0) 0 = PosInf
   \<and> minimax_max take_game 0 (2, 0, 0) 0 = Fin 0"
  by code_simp

lemma root_loop_move:
  "bm \<noteq> None \<Longrightarrow> fst (snd (root_loop g pid s as al be bs bm d)) \<in> insert bm (Some ` set as)"
proof (induction as arbitrary: al bs bm)
  case Nil
  show ?case by simp
next
  case (Cons a as)
  define x where "x = min_value g pid (result g s a) al be (d - 1)"
  show ?case
  proof (cases "bs < x")
    case True
    have "fst (snd (root_loop g pid s (a # as) al be bs bm d))
            = fst (snd (root_loop g pid s as (max al x) be x (Some a) d))"
      using True by (simp add: Let_def x_def[symmetric] mid_case3)
    moreover have "fst (snd (root_loop g pid s as (max al x) be x (Some a) d))
            \<in> insert (Some a) (Some ` set as)"
      by (rule Cons.IH) simp
    ultimately show ?thesis by auto
  next
    case False
    have "fst (snd (root_loop g pid s (a # as) al be bs bm d))
            = fst (snd (root_loop g pid s as (max al x) be bs bm d))"
      using False Cons.prems by (cases bm) (simp_all add: Let_def x_def[symmetric] mid_case3)
    moreover have "fst (snd (root_loop g pid s as (max al x) be bs bm d))
            \<in> insert bm (Some ` set as)"
      using Cons.prems by (rule Cons.IH)
    ultimately show ?thesis by auto
  qed
qed

lemma root_loop_first:
  "fst (snd (root_loop g pid s (a # as) al be bs None d)) \<in> Some ` set (a # as)"
proof -
  define x where "x = min_value g pid (result g s a) al be (d - 1)"
  have "fst (snd (root_loop g pid s (a # as) al be bs None d))
          = fst (snd (root_loop g pid s as (max al x) be x (Some a) d))"
    by (simp add: Let_def x_def[symmetric] mid_case3)
  moreover have "fst (snd (root_loop g pid s as (max al x) be x (Some a) d))
          \<in> insert (Some a) (Some ` set as)"
    by (rule root_loop_move) simp
  ultimately show ?thesis by auto
qed

lemma root_loop_no_fallback:
  "bm \<noteq> None \<Longrightarrow> Fallback \<notin> set (snd (snd (root_loop g pid s as al be bs bm d)))"
proof (induction as arbitrary: al bs bm)
  case Nil
  show ?case by simp
next
  case (Cons a as)
  define x where "x = min_value g pid (result g s a) al be (d - 1)"
  show ?case
  proof (cases "bs < x")
    case True
    have "snd (snd (root_loop g pid s (a # as) al be bs bm d))
            = Better # snd (snd (root_loop g pid s as (max al x) be x (Some a) d))"
      using True by (simp add: Let_def x_def[symmetric] trace_case3)
    moreover have "Fallback \<notin> set (snd (snd (root_loop g pid s as (max al x) be x (Some a) d)))"
      by (rule Cons.IH) simp
    ultimately show ?thesis by simp
  next
    case False
    have "snd (snd (root_loop g pid s (a # as) al be bs bm d))
            = Keep # snd (snd (root_loop g pid s as (max al x) be bs bm d))"
      using False Cons.prems by (cases bm) (simp_all add: Let_def x_def[symmetric] trace_case3)
    moreover have "Fallback \<notin> set (snd (snd (root_loop g pid s as (max al x) be bs bm d)))"
      using Cons.prems by (rule Cons.IH)
    ultimately show ?thesis by simp
  qed
qed

text \<open>
  Claim C10. For every state whose \<open>actions()\<close> list is not empty,
  \<open>alpha_beta_search\<close> returns an element of that list and never \<open>None\<close>, whatever
  the values of the moves are: when the first value does not exceed the initial
  \<open>best_score\<close> of minus infinity, the \<open>elif\<close> arm adopts the first action.
\<close>

theorem alpha_beta_search_returns_legal_move:
  "actions g s \<noteq> [] \<Longrightarrow> \<exists>a \<in> set (actions g s). alpha_beta_search g pid s depth = Some a"
proof -
  assume "actions g s \<noteq> []"
  then obtain a as where as: "actions g s = a # as" by (cases "actions g s") auto
  have "fst (snd (root_loop g pid s (a # as) NegInf PosInf NegInf None depth)) \<in> Some ` set (a # as)"
    by (rule root_loop_first)
  then show ?thesis unfolding alpha_beta_search_def alpha_beta_run_def as by auto
qed

theorem alpha_beta_search_returns_legal_move_witness:
  "actions take_game (2, 0, 0) \<noteq> []
   \<and> (\<exists>a \<in> set (actions take_game (2, 0, 0)). alpha_beta_search take_game 0 (2, 0, 0) 5 = Some a)"
  using alpha_beta_search_returns_legal_move[of take_game "(2, 0, 0)" 0 5]
  by (simp add: take_game_def)

text \<open>
  Claim C4, as amended. The \<open>elif best_move is None\<close> arm of the loop of
  \<open>alpha_beta_search\<close> runs exactly when the first action evaluated has the value
  minus infinity, and then only in that first iteration; in every later iteration
  \<open>best_move\<close> is already set. The first action does not always satisfy
  \<open>v > best_score\<close>.
\<close>

theorem fallback_only_on_first_action_of_value_NegInf:
  "actions g s = a # as \<Longrightarrow>
   \<exists>tr. alpha_beta_branches g pid s depth
          = (if min_value g pid (result g s a) NegInf PosInf (depth - 1) = NegInf
             then Fallback else Better) # tr
        \<and> Fallback \<notin> set tr"
proof -
  assume as: "actions g s = a # as"
  define x where "x = min_value g pid (result g s a) NegInf PosInf (depth - 1)"
  have lt: "(NegInf < x) = (x \<noteq> NegInf)" by (cases x) (auto simp: less_ext_def)
  have nf: "Fallback \<notin> set (snd (snd (root_loop g pid s as (max NegInf x) PosInf x (Some a) depth)))"
    by (rule root_loop_no_fallback) simp
  have "alpha_beta_branches g pid s depth
          = (if x = NegInf then Fallback else Better)
              # snd (snd (root_loop g pid s as (max NegInf x) PosInf x (Some a) depth))"
    unfolding alpha_beta_branches_def alpha_beta_run_def as
    by (simp add: Let_def x_def[symmetric] trace_case3 lt del: ext_max_NegInf)
  with nf show ?thesis unfolding x_def by blast
qed

theorem fallback_only_on_first_action_of_value_NegInf_witness:
  "actions take_game (2, 0, 0) = 1 # [2]
   \<and> (\<exists>tr. alpha_beta_branches take_game 0 (2, 0, 0) 5
          = (if min_value take_game 0 (result take_game (2, 0, 0) 1) NegInf PosInf (5 - 1) = NegInf
             then Fallback else Better) # tr
        \<and> Fallback \<notin> set tr)"
proof -
  have a: "actions take_game (2, 0, 0) = 1 # [2]" by (simp add: take_game_def)
  from fallback_only_on_first_action_of_value_NegInf[OF a, of 0 5] a show ?thesis by blast
qed

text \<open>
  Claim C4 as stated fails: in the concrete game, from a pile of two tokens, taking one
  token loses, so the first action has the value minus infinity and the \<open>elif\<close> arm
  runs in the first iteration.
\<close>

theorem fallback_branch_executes_counterexample:
  "min_value take_game 0 (result take_game (2, 0, 0) 1) NegInf PosInf (5 - 1) = NegInf
   \<and> alpha_beta_branches take_game 0 (2, 0, 0) 5 = [Fallback, Better]"
  by code_simp

text \<open>
  Claim C9, as amended. \<open>get_action\<close> makes no \<open>terminal_test\<close> check: it calls
  \<open>alpha_beta_search(state, 5)\<close> exactly when \<open>state.ply_count\<close> is at least 2,
  whether or not the state is terminal, and puts what the search returns on the queue.
  (The MCTS engine is never called: its call is commented out.)
\<close>

theorem get_action_delegates_by_ply_count:
  "(get_action_branch g state = Alpha_beta state 5) = (2 \<le> ply_count g state)
   \<and> (2 \<le> ply_count g state \<longrightarrow>
        get_action g pid r state queue = Inr (queue @ [alpha_beta_search g pid state 5]))"
  by (auto simp: get_action_branch_def get_action_def SEARCH_DEPTH_def)

theorem get_action_delegates_by_ply_count_witness:
  "(2::int) \<le> ply_count take_game (0, 0, 2)
   \<and> get_action_branch take_game (0, 0, 2) = Alpha_beta (0, 0, 2) 5
   \<and> get_action take_game 0 0 (0, 0, 2) [] = Inr ([] @ [alpha_beta_search take_game 0 (0, 0, 2) 5])"
  using get_action_delegates_by_ply_count[of take_game "(0, 0, 2)" 0 0 "[]"]
  by (simp add: take_game_def)

text \<open>
  Claim C9 as stated fails: on a terminal state reached after two plies, \<open>get_action\<close>
  calls \<open>alpha_beta_search\<close> on that state and puts \<open>None\<close> on the queue.
\<close>

theorem get_action_searches_terminal_state_counterexample:
  "terminal_test take_game (0, 0, 2)
   \<and> get_action_branch take_game (0, 0, 2) = Alpha_beta (0, 0, 2) 5
   \<and> get_action take_game 0 0 (0, 0, 2) [] = Inr [None]"
  by code_simp


section \<open>Proofs: the board game state\<close>

lemma ray_in_board: "c \<in> set (ray b l d) \<Longrightarrow> in_board c"
proof (induction b l d rule: ray.induct)
  case (1 b current_x current_y dx dy)
  show ?case
  proof (cases "(dx, dy) \<noteq> (0, 0)
         \<and> 0 \<le> current_x + dx \<and> current_x + dx < X_DIM
         \<and> 0 \<le> current_y + dy \<and> current_y + dy < Y_DIM")
    case False
    with "1.prems" show ?thesis by (simp add: ray.simps[of b current_x current_y dx dy])
  next
    case True
    show ?thesis
    proof (cases "b ! nat (current_x + dx) ! nat (current_y + dy) \<noteq> 0")
      case blocked: True
      with True "1.prems" show ?thesis by (simp add: ray.simps[of b current_x current_y dx dy])
    next
      case False
      with True "1.prems" have "c = (current_x + dx, current_y + dy)
          \<or> c \<in> set (ray b (current_x + dx, current_y + dy) (dx, dy))"
        by (simp add: ray.simps[of b current_x current_y dx dy])
      then show ?thesis
      proof
        assume "c = (current_x + dx, current_y + dy)"
        with True show ?thesis by (simp add: in_board_def)
      next
        assume "c \<in> set (ray b (current_x + dx, current_y + dy) (dx, dy))"
        then show ?thesis using "1.IH" True False by simp
      qed
    qed
  qed
qed

lemma liberties_in_board: "c \<in> set (liberties self loc) \<Longrightarrow> in_board c"
proof (cases loc)
  case None
  assume "c \<in> set (liberties self loc)"
  with None show ?thesis by (auto simp: liberties_def in_board_def)
next
  case (Some l)
  assume "c \<in> set (liberties self loc)"
  with Some show ?thesis by (auto simp: liberties_def dest: ray_in_board)
qed

text \<open>
  Claim C8. \<open>GameState.result(action)\<close> fails (with the \<open>AssertionError\<close> of its
  \<open>assert\<close>) exactly when \<open>action\<close> is not in \<open>actions()\<close>. Whether it fails or
  succeeds the receiver is left as it was. On success it returns a new state in which the
  action's cell is blocked, every other cell is as before, the active player's location
  is the action, the other player's location is unchanged and the active player is
  toggled.
\<close>

theorem GameState_result_spec:
  "wf_state self \<Longrightarrow>
   fst (GameState_result self move) = self
   \<and> (snd (GameState_result self move) = Inl AssertionError)
       = (move \<notin> set (GameState_actions self))
   \<and> (move \<in> set (GameState_actions self) \<longrightarrow>
        (\<exists>s'. snd (GameState_result self move) = Inr s'
           \<and> cell s' move = 1
           \<and> (\<forall>c. in_board c \<and> c \<noteq> move \<longrightarrow> cell s' c = cell self c)
           \<and> player_locations s' ! nat (active_players_index self) = Some move
           \<and> player_locations s' ! nat (1 - active_players_index self)
               = player_locations self ! nat (1 - active_players_index self)
           \<and> active_players_index s' = 1 - active_players_index self
           \<and> wf_state s'))"
proof -
  assume wf: "wf_state self"
  have 1: "fst (GameState_result self move) = self" by (simp add: GameState_result_def)
  have 2: "(snd (GameState_result self move) = Inl AssertionError)
       = (move \<notin> set (GameState_actions self))" by (simp add: GameState_result_def)
  have 3: "\<exists>s'. snd (GameState_result self move) = Inr s'
           \<and> cell s' move = 1
           \<and> (\<forall>c. in_board c \<and> c \<noteq> move \<longrightarrow> cell s' c = cell self c)
           \<and> player_locations s' ! nat (active_players_index self) = Some move
           \<and> player_locations s' ! nat (1 - active_players_index self)
               = player_locations self ! nat (1 - active_players_index self)
           \<and> active_players_index s' = 1 - active_players_index self
           \<and> wf_state s'" if legal: "move \<in> set (GameState_actions self)"
  proof -
    define s' where "s' = \<lparr> board = (board self)[nat (fst move) := (board self ! nat (fst move))[nat (snd move) := 1]],
          active_players_index = (if active_players_index self = 0 then 1 else (0::int)),
          player_locations = (player_locations self)[nat (active_players_index self) := Some move] \<rparr>"
    have r: "snd (GameState_result self move) = Inr s'"
      using legal by (simp add: GameState_result_def s'_def)
    have ib: "in_board move" using legal unfolding GameState_actions_def by (rule liberties_in_board)
    have lb: "length (board self) = 3" using wf by (simp add: wf_state_def X_DIM_def)
    have "0 \<le> fst move" "fst move < 3" using ib by (simp_all add: in_board_def X_DIM_def)
    then have "nat (fst move) < 3" by arith
    then have x: "nat (fst move) < length (board self)" using lb by simp
    have "board self ! nat (fst move) \<in> set (board self)" using x by (rule nth_mem)
    then have lr: "length (board self ! nat (fst move)) = 2" using wf
      by (simp add: wf_state_def Y_DIM_def)
    have "0 \<le> snd move" "snd move < 2" using ib by (simp_all add: in_board_def Y_DIM_def)
    then have "nat (snd move) < 2" by arith
    then have y: "nat (snd move) < length (board self ! nat (fst move))" using lr by simp
    have c1: "cell s' move = 1" using x y by (simp add: cell_def s'_def)
    have c2: "cell s' c = cell self c" if "in_board c" "c \<noteq> move" for c
    proof (cases "fst c = fst move")
      case True
      with that have "snd c \<noteq> snd move" by (auto simp: prod_eq_iff)
      with that(1) ib have "nat (snd c) \<noteq> nat (snd move)" by (auto simp: in_board_def)
      with True x show ?thesis by (simp add: cell_def s'_def)
    next
      case False
      with that(1) ib have "nat (fst c) \<noteq> nat (fst move)" by (auto simp: in_board_def)
      then show ?thesis by (simp add: cell_def s'_def)
    qed
    have a: "active_players_index self = 0 \<or> active_players_index self = 1"
      using wf by (simp add: wf_state_def)
    have l: "length (player_locations self) = 2" using wf by (simp add: wf_state_def)
    have p1: "player_locations s' ! nat (active_players_index self) = Some move"
      using a l by (auto simp: s'_def)
    have p2: "player_locations s' ! nat (1 - active_players_index self)
               = player_locations self ! nat (1 - active_players_index self)"
      using a l by (auto simp: s'_def)
    have t: "active_players_index s' = 1 - active_players_index self"
      using a by (auto simp: s'_def)
    have lr': "length (board self ! nat (fst move)) = nat Y_DIM" using lr by (simp add: Y_DIM_def)
    have w: "wf_state s'" using wf a lr'
      by (auto simp: wf_state_def s'_def dest!: set_update_subset_insert[THEN subsetD])
    from r c1 c2 p1 p2 t w show ?thesis by blast
  qed
  from 1 2 3 show ?thesis by blast
qed

lemma wf_init: "wf_state GameState_init"
  by (simp add: wf_state_def GameState_init_def X_DIM_def Y_DIM_def)

theorem GameState_result_spec_witness:
  "wf_state GameState_init \<and> (1, 1) \<in> set (GameState_actions GameState_init)
   \<and> fst (GameState_result GameState_init (1, 1)) = GameState_init
   \<and> (\<exists>s'. snd (GameState_result GameState_init (1, 1)) = Inr s' \<and> cell s' (1, 1) = 1
        \<and> active_players_index s' = 1 - active_players_index GameState_init)
   \<and> snd (GameState_result GameState_init (2, 1)) = Inl AssertionError"
proof -
  have l: "(1, 1) \<in> set (GameState_actions GameState_init)" by code_simp
  have i: "(2, 1) \<notin> set (GameState_actions GameState_init)" by code_simp
  from GameState_result_spec[OF wf_init, of "(1, 1)"] GameState_result_spec[OF wf_init, of "(2, 1)"]
    l i wf_init
  show ?thesis by blast
qed


section \<open>Proofs: Monte-Carlo tree search\<close>

lemma rollout_loop_player:
  assumes alt: "\<forall>s a. player g (result g s a) = 1 - player g s"
  shows "rollout_loop g s rnd = Some (Inr (s', rnd')) \<Longrightarrow>
     terminal_test g s' \<and> length rnd' \<le> length rnd
     \<and> player g s' = (if even (length rnd - length rnd') then player g s else 1 - player g s)"
proof (induction rnd arbitrary: s)
  case Nil
  then show ?case by (simp add: non_terminal_def split: if_splits)
next
  case (Cons r rnd)
  show ?case
  proof (cases "non_terminal g s")
    case False
    with Cons.prems show ?thesis by (simp add: non_terminal_def)
  next
    case True
    with Cons.prems obtain a where a: "rollout_policy (actions g s) r = Inr a"
      and rec: "rollout_loop g (result g s a) rnd = Some (Inr (s', rnd'))"
      by (auto split: sum.splits)
    from Cons.IH[OF rec] alt
    have t: "terminal_test g s'" and l: "length rnd' \<le> length rnd"
      and p: "player g s' = (if even (length rnd - length rnd') then 1 - player g s
                              else 1 - (1 - player g s))"
      by simp_all
    from l have s: "length (r # rnd) - length rnd' = Suc (length rnd - length rnd')" by simp
    from t l p show ?thesis unfolding s by simp
  qed
qed

text \<open>
  Claim C1, as amended. When the simulation from a leaf reaches a terminal state, the
  outcome is +1 exactly when the player who is not to move at that terminal state (the
  player who made the last move) has utility plus infinity there, -1 exactly when that
  player has utility minus infinity, and 0 otherwise. The outcome is taken from the
  terminal state alone; where the players alternate, that player is the leaf's mover
  when the number of simulated moves is odd and the leaf mover's opponent when it is
  even.
\<close>

theorem rollout_outcome_is_for_last_mover:
  assumes alt: "\<forall>s a. player g (result g s a) = 1 - player g s"
    and run: "rollout g t i rnd = Some (Inr (v, rnd'))"
  shows "\<exists>s'. rollout_loop g (gameState (t ! i)) rnd = Some (Inr (s', rnd'))
           \<and> terminal_test g s'
           \<and> (v = 1) = (utility g s' (1 - player g s') = PosInf)
           \<and> (v = - 1) = (utility g s' (1 - player g s') = NegInf)
           \<and> (v = 0) = (utility g s' (1 - player g s') \<noteq> PosInf \<and> utility g s' (1 - player g s') \<noteq> NegInf)
           \<and> 1 - player g s' = (if even (length rnd - length rnd')
                                  then 1 - player g (gameState (t ! i))
                                  else player g (gameState (t ! i)))"
proof -
  from run obtain s' where l: "rollout_loop g (gameState (t ! i)) rnd = Some (Inr (s', rnd'))"
    and v: "v = Node_result g s'"
    by (auto simp: rollout_def split: option.splits sum.splits)
  from rollout_loop_player[OF alt l]
  have t: "terminal_test g s'"
    and p: "player g s' = (if even (length rnd - length rnd') then player g (gameState (t ! i))
                            else 1 - player g (gameState (t ! i)))"
    by simp_all
  have v1: "(v = 1) = (utility g s' (1 - player g s') = PosInf)"
    by (simp add: v Node_result_def is_a_win_def is_a_loss_def)
  have v2: "(v = - 1) = (utility g s' (1 - player g s') = NegInf)"
    by (auto simp: v Node_result_def is_a_win_def is_a_loss_def)
  have v3: "(v = 0) = (utility g s' (1 - player g s') \<noteq> PosInf \<and> utility g s' (1 - player g s') \<noteq> NegInf)"
    by (simp add: v Node_result_def is_a_win_def is_a_loss_def)
  have p': "1 - player g s' = (if even (length rnd - length rnd')
                                  then 1 - player g (gameState (t ! i))
                                  else player g (gameState (t ! i)))"
    using p by simp
  from l t v1 v2 v3 p' show ?thesis by blast
qed

lemma take_game_alternates: "\<forall>s a. player take_game (result take_game s a) = 1 - player take_game s"
  by (simp add: take_game_def split: prod.splits)

theorem rollout_outcome_is_for_last_mover_witness:
  "(\<forall>s a. player take_game (result take_game s a) = 1 - player take_game s)
   \<and> rollout take_game T1 1 [0] = Some (Inr (1, []))
   \<and> (\<exists>s'. rollout_loop take_game (gameState (T1 ! 1)) [0] = Some (Inr (s', []))
        \<and> terminal_test take_game s'
        \<and> ((1::int) = 1) = (utility take_game s' (1 - player take_game s') = PosInf)
        \<and> ((1::int) = - 1) = (utility take_game s' (1 - player take_game s') = NegInf)
        \<and> ((1::int) = 0) = (utility take_game s' (1 - player take_game s') \<noteq> PosInf
                              \<and> utility take_game s' (1 - player take_game s') \<noteq> NegInf)
        \<and> 1 - player take_game s' = (if even (length [0::nat] - length ([]::nat list))
                                  then 1 - player take_game (gameState (T1 ! 1))
                                  else player take_game (gameState (T1 ! 1))))"
proof -
  have r: "rollout take_game T1 1 [0] = Some (Inr (1, []))" by code_simp
  from rollout_outcome_is_for_last_mover[OF take_game_alternates r] take_game_alternates r
  show ?thesis by blast
qed

text \<open>
  Claim C1 as stated fails: at a leaf that is already terminal the player to move has
  lost (utility minus infinity), and the rollout returns +1, not -1.
\<close>

theorem rollout_terminal_leaf_counterexample:
  "terminal_test take_game (0, 1, 1)
   \<and> utility take_game (0, 1, 1) (player take_game (0, 1, 1)) = NegInf
   \<and> rollout take_game [Node take_game (0, 1, 1) (Some 2) (Some 0)] 0 [] = Some (Inr (1, []))"
  by code_simp

text \<open>
  Claim C7, as amended. \<open>monte_carlo_tree_search\<close> has no minimum of one iteration:
  when the first loop test already finds more elapsed milliseconds than the rounded
  budget, as it does with a budget of 0 ms as soon as the clock has advanced, no
  iteration runs, the root has no children, \<open>best_child\<close> returns \<open>None\<close> and the
  function fails with \<open>AttributeError\<close> on \<open>best_child.action\<close>.
\<close>

theorem mcts_without_iteration_fails:
  "real_of_int \<lceil>search_time * SEARCH_TIME_WITH_SAFETY\<rceil> < (now - start_time) * 1000 \<Longrightarrow>
   monte_carlo_tree_search g game_state search_time (start_time # now # clock) rnd
     = Some (Inl AttributeError)"
  by (simp add: monte_carlo_tree_search_def mcts_tree_def best_child_def Node_def)

theorem mcts_without_iteration_fails_witness:
  "real_of_int \<lceil>0 * SEARCH_TIME_WITH_SAFETY\<rceil> < (0.001 - 0) * 1000
   \<and> \<not> terminal_test take_game (2, 0, 0)
   \<and> monte_carlo_tree_search take_game (2, 0, 0) 0 (0 # 0.001 # []) [0, 0] = Some (Inl AttributeError)"
proof -
  have h: "real_of_int \<lceil>0 * SEARCH_TIME_WITH_SAFETY\<rceil> < (0.001 - 0) * 1000" by simp
  have n: "\<not> terminal_test take_game (2, 0, 0)" by (simp add: take_game_def)
  from mcts_without_iteration_fails[OF h, of take_game "(2, 0, 0)" "[]" "[0, 0]"] h n
  show ?thesis by blast
qed

text \<open>
  Claim C7 as stated fails: on a state that is not terminal, with a budget of 0 ms and a
  clock that has advanced by a microsecond, the function fails.
\<close>

theorem mcts_zero_budget_counterexample:
  "\<not> terminal_test take_game (2, 0, 0)
   \<and> \<lceil>0 * SEARCH_TIME_WITH_SAFETY\<rceil> = 0
   \<and> monte_carlo_tree_search take_game (2, 0, 0) 0 [0, 0.000001] [0, 0] = Some (Inl AttributeError)"
  by (simp add: monte_carlo_tree_search_def mcts_tree_def best_child_def Node_def take_game_def)

subsection \<open>Invariants of the search tree\<close>

lemma same_struct_refl: "same_struct t t"
  by (simp add: same_struct_def)

lemma same_struct_trans: "same_struct t t' \<Longrightarrow> same_struct t' t'' \<Longrightarrow> same_struct t t''"
  by (simp add: same_struct_def)

lemma same_struct_update:
  "i < length t \<Longrightarrow>
   same_struct t (t[i := (t ! i)\<lparr>numberOfVisits := n, qValue := q\<rparr>])"
  by (simp add: same_struct_def nth_list_update)

lemma tree_okD:
  assumes "tree_ok t"
  shows "t \<noteq> []" and "parentNode (t ! 0) = None"
    and "c < length t \<Longrightarrow> 0 < c \<Longrightarrow> \<exists>p < c. parentNode (t ! c) = Some p"
    and "i < length t \<Longrightarrow> c \<in> set (childNodes (t ! i)) \<Longrightarrow> i < c"
    and "i < length t \<Longrightarrow> c \<in> set (childNodes (t ! i)) \<Longrightarrow> c < length t"
    and "i < length t \<Longrightarrow> c \<in> set (childNodes (t ! i)) \<Longrightarrow> parentNode (t ! c) = Some i"
proof -
  from assms have a: "t \<noteq> []" and b: "parentNode (t ! 0) = None"
    and c: "\<forall>c < length t. 0 < c \<longrightarrow> (\<exists>p < c. parentNode (t ! c) = Some p)"
    and d: "\<forall>i < length t. \<forall>c \<in> set (childNodes (t ! i)).
            i < c \<and> c < length t \<and> parentNode (t ! c) = Some i"
    unfolding tree_ok_def by blast+
  show "t \<noteq> []" by (rule a)
  show "parentNode (t ! 0) = None" by (rule b)
  show "c < length t \<Longrightarrow> 0 < c \<Longrightarrow> \<exists>p < c. parentNode (t ! c) = Some p"
    using c by blast
  show "i < length t \<Longrightarrow> c \<in> set (childNodes (t ! i)) \<Longrightarrow> i < c"
    using d by blast
  show "i < length t \<Longrightarrow> c \<in> set (childNodes (t ! i)) \<Longrightarrow> c < length t"
    using d by blast
  show "i < length t \<Longrightarrow> c \<in> set (childNodes (t ! i)) \<Longrightarrow> parentNode (t ! c) = Some i"
    using d by blast
qed

lemma tree_okI:
  assumes "t \<noteq> []" and "parentNode (t ! 0) = None"
    and "\<And>c. c < length t \<Longrightarrow> 0 < c \<Longrightarrow> \<exists>p < c. parentNode (t ! c) = Some p"
    and "\<And>i c. i < length t \<Longrightarrow> c \<in> set (childNodes (t ! i)) \<Longrightarrow>
           i < c \<and> c < length t \<and> parentNode (t ! c) = Some i"
  shows "tree_ok t"
  unfolding tree_ok_def using assms by blast

lemma moves_okD:
  assumes "moves_ok g t" and "i < length t"
  shows "length (openActions (t ! i)) + length (childNodes (t ! i))
          = length (actions g (gameState (t ! i)))"
    and "set (openActions (t ! i)) \<subseteq> set (actions g (gameState (t ! i)))"
    and "c \<in> set (childNodes (t ! i)) \<Longrightarrow>
           \<exists>a \<in> set (actions g (gameState (t ! i))). action (t ! c) = Some a"
  using assms unfolding moves_ok_def by blast+

lemma moves_okI:
  assumes "\<And>i. i < length t \<Longrightarrow> length (openActions (t ! i)) + length (childNodes (t ! i))
          = length (actions g (gameState (t ! i)))"
    and "\<And>i. i < length t \<Longrightarrow> set (openActions (t ! i)) \<subseteq> set (actions g (gameState (t ! i)))"
    and "\<And>i c. i < length t \<Longrightarrow> c \<in> set (childNodes (t ! i)) \<Longrightarrow>
           \<exists>a \<in> set (actions g (gameState (t ! i))). action (t ! c) = Some a"
  shows "moves_ok g t"
  unfolding moves_ok_def using assms by blast

lemma tree_ok_parent_less:
  assumes ok: "tree_ok t" and c: "c < length t" and p: "parentNode (t ! c) = Some p"
  shows "p < c"
proof (cases "c = 0")
  case True
  with tree_okD(2)[OF ok] p show ?thesis by simp
next
  case False
  then have "0 < c" by simp
  from tree_okD(3)[OF ok c this] p show ?thesis by auto
qed

lemma same_struct_tree_ok:
  assumes s: "same_struct t t'" and ok: "tree_ok t"
  shows "tree_ok t'"
proof (rule tree_okI)
  from s have l: "length t' = length t"
    and f: "\<And>j. j < length t \<Longrightarrow> parentNode (t' ! j) = parentNode (t ! j)"
    and ch: "\<And>j. j < length t \<Longrightarrow> childNodes (t' ! j) = childNodes (t ! j)"
    by (simp_all add: same_struct_def)
  from tree_okD(1)[OF ok] have ne: "0 < length t" by simp
  show "t' \<noteq> []" using l ne by auto
  show "parentNode (t' ! 0) = None" using f[OF ne] tree_okD(2)[OF ok] by simp
  show "\<exists>p < c. parentNode (t' ! c) = Some p" if "c < length t'" "0 < c" for c
    using that tree_okD(3)[OF ok, of c] f[of c] l by simp
  show "i < c \<and> c < length t' \<and> parentNode (t' ! c) = Some i"
    if "i < length t'" "c \<in> set (childNodes (t' ! i))" for i c
  proof -
    from that l have i: "i < length t" by simp
    with that ch have c: "c \<in> set (childNodes (t ! i))" by simp
    from tree_okD(4)[OF ok i c] tree_okD(5)[OF ok i c] tree_okD(6)[OF ok i c] f[of c] l
    show ?thesis by simp
  qed
qed

lemma same_struct_moves_ok:
  assumes s: "same_struct t t'" and ok: "tree_ok t" and m: "moves_ok g t"
  shows "moves_ok g t'"
proof (rule moves_okI)
  from s have l: "length t' = length t"
    and fa: "\<And>j. j < length t \<Longrightarrow> action (t' ! j) = action (t ! j)"
    and fg: "\<And>j. j < length t \<Longrightarrow> gameState (t' ! j) = gameState (t ! j)"
    and fc: "\<And>j. j < length t \<Longrightarrow> childNodes (t' ! j) = childNodes (t ! j)"
    and fo: "\<And>j. j < length t \<Longrightarrow> openActions (t' ! j) = openActions (t ! j)"
    by (simp_all add: same_struct_def)
  fix i assume "i < length t'"
  with l have i: "i < length t" by simp
  show "length (openActions (t' ! i)) + length (childNodes (t' ! i))
          = length (actions g (gameState (t' ! i)))"
    using moves_okD(1)[OF m i] fg[OF i] fc[OF i] fo[OF i] by simp
  show "set (openActions (t' ! i)) \<subseteq> set (actions g (gameState (t' ! i)))"
    using moves_okD(2)[OF m i] fg[OF i] fo[OF i] by simp
  fix c assume "c \<in> set (childNodes (t' ! i))"
  with fc[OF i] have c: "c \<in> set (childNodes (t ! i))" by simp
  from tree_okD(5)[OF ok i c] have cl: "c < length t" .
  show "\<exists>a \<in> set (actions g (gameState (t' ! i))). action (t' ! c) = Some a"
    using moves_okD(3)[OF m i c] fg[OF i] fa[OF cl] by simp
qed

lemma visits_midD:
  assumes "visits_mid t k i"
  shows "numberOfVisits (t ! 0) = k"
    and "c < length t \<Longrightarrow> 0 < c \<Longrightarrow> c \<noteq> i \<Longrightarrow> 1 \<le> numberOfVisits (t ! c)"
    and "c < length t \<Longrightarrow> parentNode (t ! c) = Some p \<Longrightarrow>
           numberOfVisits (t ! c) \<le> numberOfVisits (t ! p) + (if p = i then 1 else 0)"
  using assms unfolding visits_mid_def by blast+

lemma visits_midI:
  assumes "numberOfVisits (t ! 0) = k"
    and "\<And>c. c < length t \<Longrightarrow> 0 < c \<Longrightarrow> c \<noteq> i \<Longrightarrow> 1 \<le> numberOfVisits (t ! c)"
    and "\<And>c p. c < length t \<Longrightarrow> parentNode (t ! c) = Some p \<Longrightarrow>
           numberOfVisits (t ! c) \<le> numberOfVisits (t ! p) + (if p = i then 1 else 0)"
  shows "visits_mid t k i"
  unfolding visits_mid_def using assms by blast

lemma visits_okD:
  assumes "visits_ok t k"
  shows "numberOfVisits (t ! 0) = k"
    and "c < length t \<Longrightarrow> 0 < c \<Longrightarrow> 1 \<le> numberOfVisits (t ! c)"
    and "c < length t \<Longrightarrow> parentNode (t ! c) = Some p \<Longrightarrow>
           numberOfVisits (t ! c) \<le> numberOfVisits (t ! p)"
  using assms unfolding visits_ok_def by blast+

lemma visits_okI:
  assumes "numberOfVisits (t ! 0) = k"
    and "\<And>c. c < length t \<Longrightarrow> 0 < c \<Longrightarrow> 1 \<le> numberOfVisits (t ! c)"
    and "\<And>c p. c < length t \<Longrightarrow> parentNode (t ! c) = Some p \<Longrightarrow>
           numberOfVisits (t ! c) \<le> numberOfVisits (t ! p)"
  shows "visits_ok t k"
  unfolding visits_ok_def using assms by blast

lemma visit_update_facts:
  assumes t1: "t1 = t[i := (t ! i)\<lparr>numberOfVisits := numberOfVisits (t ! i) + 1, qValue := q\<rparr>]"
    and i: "i < length t"
  shows "length t1 = length t"
    and "j < length t \<Longrightarrow> parentNode (t1 ! j) = parentNode (t ! j)"
    and "j < length t \<Longrightarrow>
           numberOfVisits (t1 ! j) = numberOfVisits (t ! j) + (if j = i then 1 else 0)"
  using i by (simp_all add: t1 nth_list_update)

lemma backpropagate_root_visits:
  assumes ok: "tree_ok t" and v: "visits_mid t k 0"
    and t1: "t1 = t[0 := (t ! 0)\<lparr>numberOfVisits := numberOfVisits (t ! 0) + 1, qValue := q\<rparr>]"
  shows "visits_ok t1 (Suc k)"
proof (rule visits_okI)
  from tree_okD(1)[OF ok] have z: "0 < length t" by simp
  note f = visit_update_facts[OF t1 z]
  show "numberOfVisits (t1 ! 0) = Suc k"
    using f(3)[OF z] visits_midD(1)[OF v] by simp
  show "1 \<le> numberOfVisits (t1 ! c)" if "c < length t1" "0 < c" for c
  proof -
    from that f(1) have c: "c < length t" by simp
    from that have "c \<noteq> 0" by simp
    from visits_midD(2)[OF v c that(2) this] f(3)[OF c] that(2) show ?thesis by simp
  qed
  show "numberOfVisits (t1 ! c) \<le> numberOfVisits (t1 ! p)"
    if "c < length t1" "parentNode (t1 ! c) = Some p" for c p
  proof -
    from that f(1) have c: "c < length t" by simp
    from that(2) f(2)[OF c] have par: "parentNode (t ! c) = Some p" by simp
    from tree_ok_parent_less[OF ok c par] have pc: "p < c" .
    with c have p: "p < length t" by simp
    from pc have c0: "c \<noteq> 0" by simp
    from visits_midD(3)[OF v c par] f(3)[OF c] f(3)[OF p] c0 show ?thesis by simp
  qed
qed

lemma backpropagate_step_visits:
  assumes ok: "tree_ok t" and i: "i < length t" and par: "parentNode (t ! i) = Some p"
    and v: "visits_mid t k i"
    and t1: "t1 = t[i := (t ! i)\<lparr>numberOfVisits := numberOfVisits (t ! i) + 1, qValue := q\<rparr>]"
  shows "visits_mid t1 k p"
proof (rule visits_midI)
  note f = visit_update_facts[OF t1 i]
  from tree_ok_parent_less[OF ok i par] have pi: "p < i" .
  from tree_okD(1)[OF ok] have z: "0 < length t" by simp
  from pi have i0: "0 \<noteq> i" by simp
  show "numberOfVisits (t1 ! 0) = k"
    using f(3)[OF z] visits_midD(1)[OF v] i0 by simp
  show "1 \<le> numberOfVisits (t1 ! c)" if "c < length t1" "0 < c" "c \<noteq> p" for c
  proof (cases "c = i")
    case True
    with f(3)[OF i] show ?thesis by simp
  next
    case False
    from that f(1) have c: "c < length t" by simp
    from visits_midD(2)[OF v c that(2) False] f(3)[OF c] False show ?thesis by simp
  qed
  show "numberOfVisits (t1 ! c) \<le> numberOfVisits (t1 ! q) + (if q = p then 1 else 0)"
    if "c < length t1" "parentNode (t1 ! c) = Some q" for c q
  proof -
    from that f(1) have c: "c < length t" by simp
    from that(2) f(2)[OF c] have parc: "parentNode (t ! c) = Some q" by simp
    from tree_ok_parent_less[OF ok c parc] have qc: "q < c" .
    with c have q: "q < length t" by simp
    note h = visits_midD(3)[OF v c parc]
    show ?thesis
    proof (cases "c = i")
      case True
      with parc par have qp: "q = p" by simp
      with pi have qi: "q \<noteq> i" by simp
      from h f(3)[OF c] f(3)[OF q] True qp qi show ?thesis by simp
    next
      case False
      from h f(3)[OF c] f(3)[OF q] False show ?thesis by simp
    qed
  qed
qed

lemma backpropagate_visits:
  "tree_ok t \<Longrightarrow> i < length t \<Longrightarrow> visits_mid t k i \<Longrightarrow>
   \<exists>t'. backpropagate t i res = Some t' \<and> same_struct t t' \<and> visits_ok t' (Suc k)"
proof (induction i arbitrary: t res rule: less_induct)
  case (less i)
  define t1 where "t1 = t[i := (t ! i)\<lparr>numberOfVisits := numberOfVisits (t ! i) + 1,
                                      qValue := qValue (t ! i) + res\<rparr>]"
  have s1: "same_struct t t1" unfolding t1_def by (rule same_struct_update[OF less.prems(2)])
  show ?case
  proof (cases "parentNode (t ! i)")
    case None
    have i0: "i = 0"
    proof (rule ccontr)
      assume "i \<noteq> 0"
      then have "0 < i" by simp
      from tree_okD(3)[OF less.prems(1,2) this] None show False by simp
    qed
    have b: "backpropagate t i res = Some t1"
      using None by (subst backpropagate.simps) (simp add: t1_def)
    from less.prems(3) i0 have v: "visits_mid t k 0" by simp
    have "visits_ok t1 (Suc k)"
      by (rule backpropagate_root_visits[OF less.prems(1) v]) (simp add: t1_def i0)
    with b s1 show ?thesis by blast
  next
    case (Some p)
    from tree_ok_parent_less[OF less.prems(1,2) Some] have pi: "p < i" .
    have b: "backpropagate t i res = backpropagate t1 p (- res)"
      using Some by (subst backpropagate.simps) (simp add: t1_def)
    have ok1: "tree_ok t1" by (rule same_struct_tree_ok[OF s1 less.prems(1)])
    from s1 have l1: "length t1 = length t" by (simp add: same_struct_def)
    from pi less.prems(2) l1 have p1: "p < length t1" by simp
    have v1: "visits_mid t1 k p"
      by (rule backpropagate_step_visits[OF less.prems(1,2) Some less.prems(3)]) (simp add: t1_def)
    from less.IH[OF pi ok1 p1 v1, of "- res"]
    obtain t' where r: "backpropagate t1 p (- res) = Some t'" and s: "same_struct t1 t'"
      and v: "visits_ok t' (Suc k)" by blast
    from same_struct_trans[OF s1 s] b r v show ?thesis by simp
  qed
qed

lemma visits_ok_mid:
  assumes v: "visits_ok t k"
  shows "visits_mid t k leaf"
proof (rule visits_midI)
  show "numberOfVisits (t ! 0) = k" by (rule visits_okD(1)[OF v])
  show "1 \<le> numberOfVisits (t ! c)" if "c < length t" "0 < c" "c \<noteq> leaf" for c
    by (rule visits_okD(2)[OF v that(1,2)])
  show "numberOfVisits (t ! c) \<le> numberOfVisits (t ! p) + (if p = leaf then 1 else 0)"
    if "c < length t" "parentNode (t ! c) = Some p" for c p
    using visits_okD(3)[OF v that] by simp
qed

lemma expandE:
  assumes e: "expand g t j r = Inr (t1, leaf)" and j: "j < length t"
  obtains move where "move \<in> set (openActions (t ! j))" and "leaf = length t"
    and "length t1 = Suc (length t)"
    and "\<And>c. c < length t \<Longrightarrow> parentNode (t1 ! c) = parentNode (t ! c)"
    and "\<And>c. c < length t \<Longrightarrow> numberOfVisits (t1 ! c) = numberOfVisits (t ! c)"
    and "\<And>c. c < length t \<Longrightarrow> action (t1 ! c) = action (t ! c)"
    and "\<And>c. c < length t \<Longrightarrow> gameState (t1 ! c) = gameState (t ! c)"
    and "\<And>c. c < length t \<Longrightarrow> c \<noteq> j \<Longrightarrow> childNodes (t1 ! c) = childNodes (t ! c)"
    and "\<And>c. c < length t \<Longrightarrow> c \<noteq> j \<Longrightarrow> openActions (t1 ! c) = openActions (t ! c)"
    and "childNodes (t1 ! j) = childNodes (t ! j) @ [length t]"
    and "openActions (t1 ! j) = remove1 move (openActions (t ! j))"
    and "t1 ! length t = Node g (result g (gameState (t ! j)) move) (Some move) (Some j)"
proof -
  define move where "move = openActions (t ! j) ! (r mod length (openActions (t ! j)))"
  from e have ne: "openActions (t ! j) \<noteq> []"
    by (auto simp: expand_def choice_def split: if_splits)
  then have m: "move \<in> set (openActions (t ! j))" by (simp add: move_def)
  from e ne have t1: "t1 = t[j := (t ! j)\<lparr> openActions := remove1 move (openActions (t ! j)),
                               childNodes := childNodes (t ! j) @ [length t] \<rparr>]
                 @ [Node g (result g (gameState (t ! j)) move) (Some move) (Some j)]"
    and l: "leaf = length t"
    by (auto simp: expand_def choice_def move_def)
  show thesis
  proof (rule that[OF m l])
    show "length t1 = Suc (length t)" by (simp add: t1)
    show "\<And>c. c < length t \<Longrightarrow> parentNode (t1 ! c) = parentNode (t ! c)"
      using j by (simp add: t1 nth_append nth_list_update)
    show "\<And>c. c < length t \<Longrightarrow> numberOfVisits (t1 ! c) = numberOfVisits (t ! c)"
      using j by (simp add: t1 nth_append nth_list_update)
    show "\<And>c. c < length t \<Longrightarrow> action (t1 ! c) = action (t ! c)"
      using j by (simp add: t1 nth_append nth_list_update)
    show "\<And>c. c < length t \<Longrightarrow> gameState (t1 ! c) = gameState (t ! c)"
      using j by (simp add: t1 nth_append nth_list_update)
    show "\<And>c. c < length t \<Longrightarrow> c \<noteq> j \<Longrightarrow> childNodes (t1 ! c) = childNodes (t ! c)"
      using j by (simp add: t1 nth_append nth_list_update)
    show "\<And>c. c < length t \<Longrightarrow> c \<noteq> j \<Longrightarrow> openActions (t1 ! c) = openActions (t ! c)"
      using j by (simp add: t1 nth_append nth_list_update)
    show "childNodes (t1 ! j) = childNodes (t ! j) @ [length t]"
      using j by (simp add: t1 nth_append nth_list_update)
    show "openActions (t1 ! j) = remove1 move (openActions (t ! j))"
      using j by (simp add: t1 nth_append nth_list_update)
    show "t1 ! length t = Node g (result g (gameState (t ! j)) move) (Some move) (Some j)"
      by (simp add: t1 nth_append)
  qed
qed

lemma expand_tree_ok:
  assumes e: "expand g t j r = Inr (t1, leaf)" and j: "j < length t" and ok: "tree_ok t"
  shows "tree_ok t1"
proof -
  from e j obtain move where l1: "length t1 = Suc (length t)"
    and fp: "\<And>c. c < length t \<Longrightarrow> parentNode (t1 ! c) = parentNode (t ! c)"
    and fc: "\<And>c. c < length t \<Longrightarrow> c \<noteq> j \<Longrightarrow> childNodes (t1 ! c) = childNodes (t ! c)"
    and cj: "childNodes (t1 ! j) = childNodes (t ! j) @ [length t]"
    and new: "t1 ! length t = Node g (result g (gameState (t ! j)) move) (Some move) (Some j)"
    by (rule expandE) (rule that)
  from tree_okD(1)[OF ok] have z: "0 < length t" by simp
  have pn: "parentNode (t1 ! length t) = Some j" by (simp add: new Node_def)
  have cn: "childNodes (t1 ! length t) = []" by (simp add: new Node_def)
  show ?thesis
  proof (rule tree_okI)
    show "t1 \<noteq> []" using l1 by auto
    show "parentNode (t1 ! 0) = None" using fp[OF z] tree_okD(2)[OF ok] by simp
    show "\<exists>p<c. parentNode (t1 ! c) = Some p" if "c < length t1" "0 < c" for c
    proof (cases "c = length t")
      case True
      with pn j show ?thesis by simp
    next
      case False
      with that l1 have c: "c < length t" by simp
      from tree_okD(3)[OF ok c that(2)] fp[OF c] show ?thesis by simp
    qed
    show "i < c \<and> c < length t1 \<and> parentNode (t1 ! c) = Some i"
      if "i < length t1" "c \<in> set (childNodes (t1 ! i))" for i c
    proof (cases "i = length t")
      case True
      with that cn show ?thesis by simp
    next
      case False
      with that l1 have i: "i < length t" by simp
      show ?thesis
      proof (cases "c = length t")
        case True
        have "i = j"
        proof (rule ccontr)
          assume n: "i \<noteq> j"
          from that(2) fc[OF i n] have "c \<in> set (childNodes (t ! i))" by simp
          from tree_okD(5)[OF ok i this] True show False by simp
        qed
        with True pn j l1 show ?thesis by simp
      next
        case nc: False
        have old: "c \<in> set (childNodes (t ! i))"
        proof (cases "i = j")
          case True
          with that(2) cj nc show ?thesis by simp
        next
          case False
          with that(2) fc[OF i] show ?thesis by simp
        qed
        from tree_okD(5)[OF ok i old] have c: "c < length t" .
        from tree_okD(4)[OF ok i old] tree_okD(6)[OF ok i old] c fp[OF c] l1
        show ?thesis by simp
      qed
    qed
  qed
qed

lemma expand_moves_ok:
  assumes e: "expand g t j r = Inr (t1, leaf)" and j: "j < length t" and ok: "tree_ok t"
    and m: "moves_ok g t"
  shows "moves_ok g t1"
proof -
  from e j obtain move where mv: "move \<in> set (openActions (t ! j))"
    and l1: "length t1 = Suc (length t)"
    and fa: "\<And>c. c < length t \<Longrightarrow> action (t1 ! c) = action (t ! c)"
    and fg: "\<And>c. c < length t \<Longrightarrow> gameState (t1 ! c) = gameState (t ! c)"
    and fc: "\<And>c. c < length t \<Longrightarrow> c \<noteq> j \<Longrightarrow> childNodes (t1 ! c) = childNodes (t ! c)"
    and fo: "\<And>c. c < length t \<Longrightarrow> c \<noteq> j \<Longrightarrow> openActions (t1 ! c) = openActions (t ! c)"
    and cj: "childNodes (t1 ! j) = childNodes (t ! j) @ [length t]"
    and oj: "openActions (t1 ! j) = remove1 move (openActions (t ! j))"
    and new: "t1 ! length t = Node g (result g (gameState (t ! j)) move) (Some move) (Some j)"
    by (rule expandE) (rule that)
  have an: "action (t1 ! length t) = Some move" by (simp add: new Node_def)
  have cn: "childNodes (t1 ! length t) = []" by (simp add: new Node_def)
  have on: "openActions (t1 ! length t) = actions g (gameState (t1 ! length t))"
    by (simp add: new Node_def)
  from moves_okD(2)[OF m j] mv have mva: "move \<in> set (actions g (gameState (t ! j)))" by blast
  show ?thesis
  proof (rule moves_okI)
    fix i assume "i < length t1"
    with l1 have il: "i < length t \<or> i = length t" by auto
    show "length (openActions (t1 ! i)) + length (childNodes (t1 ! i))
            = length (actions g (gameState (t1 ! i)))"
    proof (cases "i = length t")
      case True
      with on cn show ?thesis by simp
    next
      case False
      with il have i: "i < length t" by simp
      show ?thesis
      proof (cases "i = j")
        case True
        from mv have pos: "1 \<le> length (openActions (t ! j))"
          by (cases "openActions (t ! j)") auto
        have e1: "length (openActions (t1 ! j)) = length (openActions (t ! j)) - 1"
          using mv by (simp add: oj length_remove1)
        have e2: "length (childNodes (t1 ! j)) = Suc (length (childNodes (t ! j)))"
          by (simp add: cj)
        from pos moves_okD(1)[OF m j] show ?thesis unfolding True e1 e2 fg[OF j] by arith
      next
        case False
        with moves_okD(1)[OF m i] show ?thesis by (simp add: fc[OF i] fo[OF i] fg[OF i])
      qed
    qed
    show "set (openActions (t1 ! i)) \<subseteq> set (actions g (gameState (t1 ! i)))"
    proof (cases "i = length t")
      case True
      with on show ?thesis by simp
    next
      case False
      with il have i: "i < length t" by simp
      show ?thesis
      proof (cases "i = j")
        case True
        have "set (remove1 move (openActions (t ! j))) \<subseteq> set (openActions (t ! j))"
          by (rule set_remove1_subset)
        with moves_okD(2)[OF m j] show ?thesis by (simp add: True oj fg[OF j])
      next
        case False
        with moves_okD(2)[OF m i] show ?thesis by (simp add: fo[OF i] fg[OF i])
      qed
    qed
    fix c assume cin: "c \<in> set (childNodes (t1 ! i))"
    show "\<exists>a\<in>set (actions g (gameState (t1 ! i))). action (t1 ! c) = Some a"
    proof (cases "i = length t")
      case True
      with cin cn show ?thesis by simp
    next
      case False
      with il have i: "i < length t" by simp
      show ?thesis
      proof (cases "c = length t")
        case True
        have "i = j"
        proof (rule ccontr)
          assume n: "i \<noteq> j"
          from cin fc[OF i n] have "c \<in> set (childNodes (t ! i))" by simp
          from tree_okD(5)[OF ok i this] True show False by simp
        qed
        with True an mva fg[OF j] show ?thesis by simp
      next
        case nc: False
        have old: "c \<in> set (childNodes (t ! i))"
        proof (cases "i = j")
          case True
          with cin cj nc show ?thesis by simp
        next
          case False
          with cin fc[OF i] show ?thesis by simp
        qed
        from tree_okD(5)[OF ok i old] have c: "c < length t" .
        from moves_okD(3)[OF m i old] fa[OF c] fg[OF i] show ?thesis by simp
      qed
    qed
  qed
qed

lemma expand_visits:
  assumes e: "expand g t j r = Inr (t1, leaf)" and j: "j < length t" and ok: "tree_ok t"
    and v: "visits_ok t k"
  shows "visits_mid t1 k leaf \<and> leaf < length t1"
proof -
  from e j obtain move where lf: "leaf = length t"
    and l1: "length t1 = Suc (length t)"
    and fp: "\<And>c. c < length t \<Longrightarrow> parentNode (t1 ! c) = parentNode (t ! c)"
    and fn: "\<And>c. c < length t \<Longrightarrow> numberOfVisits (t1 ! c) = numberOfVisits (t ! c)"
    and new: "t1 ! length t = Node g (result g (gameState (t ! j)) move) (Some move) (Some j)"
    by (rule expandE) (rule that)
  from tree_okD(1)[OF ok] have z: "0 < length t" by simp
  have nn: "numberOfVisits (t1 ! length t) = 0" by (simp add: new Node_def)
  have "visits_mid t1 k leaf"
  proof (rule visits_midI)
    show "numberOfVisits (t1 ! 0) = k" using fn[OF z] visits_okD(1)[OF v] by simp
    show "1 \<le> numberOfVisits (t1 ! c)" if "c < length t1" "0 < c" "c \<noteq> leaf" for c
    proof -
      from that l1 lf have c: "c < length t" by simp
      from visits_okD(2)[OF v c that(2)] fn[OF c] show ?thesis by simp
    qed
    show "numberOfVisits (t1 ! c) \<le> numberOfVisits (t1 ! p) + (if p = leaf then 1 else 0)"
      if "c < length t1" "parentNode (t1 ! c) = Some p" for c p
    proof (cases "c = length t")
      case True
      with nn show ?thesis by simp
    next
      case False
      with that l1 have c: "c < length t" by simp
      from that(2) fp[OF c] have par: "parentNode (t ! c) = Some p" by simp
      from tree_ok_parent_less[OF ok c par] c have p: "p < length t" by simp
      from visits_okD(3)[OF v c par] fn[OF c] fn[OF p] show ?thesis by simp
    qed
  qed
  with lf l1 show ?thesis by simp
qed

lemma best_child_loop_mem:
  "best_child_loop t i cs m b = Inr (Some c) \<Longrightarrow> c \<in> set cs \<or> b = Some c"
proof (induction cs arbitrary: m b)
  case Nil
  then show ?case by simp
next
  case (Cons c0 cs)
  from Cons.prems obtain u where u: "uct t i c0 = Inr u"
    by (cases "uct t i c0") simp_all
  show ?case
  proof (cases "case m of None \<Rightarrow> True | Some mv \<Rightarrow> mv < u")
    case True
    with Cons.prems u have "best_child_loop t i cs (Some u) (Some c0) = Inr (Some c)" by simp
    from Cons.IH[OF this] show ?thesis by auto
  next
    case False
    with Cons.prems u have "best_child_loop t i cs m b = Inr (Some c)" by simp
    from Cons.IH[OF this] show ?thesis by auto
  qed
qed

lemma best_child_mem: "best_child t i = Inr (Some c) \<Longrightarrow> c \<in> set (childNodes (t ! i))"
  using best_child_loop_mem[of t i "childNodes (t ! i)" None None c] by (simp add: best_child_def)

lemma traverse_result:
  assumes ok: "tree_ok t"
  shows "i < length t \<Longrightarrow> traverse g t i rnd = Some (Inr (t1, leaf, rnd1)) \<Longrightarrow>
     (t1 = t \<and> leaf < length t) \<or> (\<exists>j r. j < length t \<and> expand g t j r = Inr (t1, leaf))"
proof (induction "length t - i" arbitrary: i rule: less_induct)
  case less
  note tr = less.prems(2)
  show ?case
  proof (cases "non_terminal g (gameState (t ! i))")
    case False
    with tr have "t1 = t \<and> leaf = i" by (subst (asm) traverse.simps) simp
    with less.prems(1) show ?thesis by simp
  next
    case nt: True
    show ?thesis
    proof (cases "is_fully_expanded (t ! i)")
      case False
      with nt tr obtain r rnd' where "rnd = r # rnd'"
        and "expand g t i r = Inr (t1, leaf)"
        by (subst (asm) traverse.simps) (auto split: list.splits sum.splits)
      with less.prems(1) show ?thesis by blast
    next
      case True
      with nt tr obtain c where bc: "best_child t i = Inr (Some c)"
        and rec: "traverse g t c rnd = Some (Inr (t1, leaf, rnd1))"
        by (subst (asm) traverse.simps) (auto split: sum.splits option.splits)
      from best_child_mem[OF bc] have cin: "c \<in> set (childNodes (t ! i))" .
      from tree_okD(4)[OF ok less.prems(1) cin] have ic: "i < c" .
      from tree_okD(5)[OF ok less.prems(1) cin] have c: "c < length t" .
      from ic c have "length t - c < length t - i" by simp
      from less.hyps[OF this c rec] show ?thesis .
    qed
  qed
qed

lemma iteration_inv:
  assumes it: "iteration g t rnd = Some (Inr (t', rnd'))"
    and ok: "tree_ok t" and m: "moves_ok g t" and v: "visits_ok t k"
  shows "tree_ok t' \<and> moves_ok g t' \<and> visits_ok t' (Suc k)"
proof -
  from it obtain t1 leaf rnd1 res where tr: "traverse g t 0 rnd = Some (Inr (t1, leaf, rnd1))"
    and bp: "backpropagate t1 leaf res = Some t'"
    by (auto simp: iteration_def split: option.splits sum.splits)
  from tree_okD(1)[OF ok] have z: "0 < length t" by simp
  have mid: "tree_ok t1 \<and> moves_ok g t1 \<and> visits_mid t1 k leaf \<and> leaf < length t1"
  proof -
    from traverse_result[OF ok z tr]
    consider "t1 = t" "leaf < length t"
      | j r where "j < length t" "expand g t j r = Inr (t1, leaf)" by blast
    then show ?thesis
    proof cases
      case 1
      with ok m visits_ok_mid[OF v] show ?thesis by simp
    next
      case 2
      from expand_tree_ok[OF 2(2,1) ok] expand_moves_ok[OF 2(2,1) ok m] expand_visits[OF 2(2,1) ok v]
      show ?thesis by simp
    qed
  qed
  then have ok1: "tree_ok t1" and m1: "moves_ok g t1" and v1: "visits_mid t1 k leaf"
    and l1: "leaf < length t1" by simp_all
  from backpropagate_visits[OF ok1 l1 v1, of res] bp
  have s: "same_struct t1 t'" and v': "visits_ok t' (Suc k)" by simp_all
  from same_struct_tree_ok[OF s ok1] same_struct_moves_ok[OF s ok1 m1] v' show ?thesis by simp
qed

lemma reachable_inv:
  "mcts_reachable g game_state t k \<Longrightarrow> tree_ok t \<and> moves_ok g t \<and> visits_ok t k"
proof (induction rule: mcts_reachable.induct)
  case root
  have "tree_ok [Node g game_state None None]"
    by (rule tree_okI) (simp_all add: Node_def)
  moreover have "moves_ok g [Node g game_state None None]"
    by (rule moves_okI) (simp_all add: Node_def)
  moreover have "visits_ok [Node g game_state None None] 0"
    by (rule visits_okI) (simp_all add: Node_def)
  ultimately show ?case by simp
next
  case (step t k rnd t' rnd')
  then show ?case using iteration_inv by blast
qed

text \<open>A run of three iterations on the concrete game, evaluated step by step.\<close>

lemmas mcts_eval = iteration_def traverse.simps expand_def choice_def Node_def rollout_def
  Node_result_def is_a_win_def is_a_loss_def rollout_policy_def backpropagate.simps
  take_game_def non_terminal_def is_fully_expanded_def

lemma iteration_1:
  "iteration take_game [Node take_game (2, 0, 0) None None] [0, 0, 0, 0] = Some (Inr (T1, [0, 0]))"
  by (simp add: mcts_eval T1_def)

lemma iteration_2: "iteration take_game T1 [0, 0] = Some (Inr (T2, [0]))"
  by (simp add: mcts_eval T1_def T2_def)

lemma best_child_T2: "best_child T2 0 = Inr (Some 1)"
  by (simp add: best_child_def uct_def T2_def)

lemma traverse_T2: "traverse take_game T2 0 [0] = traverse take_game T2 1 [0]"
proof -
  have nt: "non_terminal take_game (gameState (T2 ! 0))"
    by (simp add: T2_def non_terminal_def take_game_def)
  have fe: "is_fully_expanded (T2 ! 0)" by (simp add: T2_def is_fully_expanded_def)
  show ?thesis by (subst traverse.simps) (simp add: nt fe best_child_T2)
qed

lemma iteration_3: "iteration take_game T2 [0] = Some (Inr (T3, []))"
  by (simp only: iteration_def traverse_T2) (simp add: mcts_eval T2_def T3_def)

lemma best_child_T3: "best_child T3 0 = Inr (Some 2)"
proof -
  have "sqrt (ln (3::real)) \<le> sqrt (2 * ln 3)" by (rule real_sqrt_le_mono) simp
  then have "17 * sqrt (ln (3::real)) < 10 + 17 * sqrt (2 * ln 3)" by linarith
  then show ?thesis
    by (simp add: best_child_def uct_def T3_def EXPLORATION_WEIGHT_def)
qed

lemma mcts_tree_run:
  "mcts_tree take_game (2, 0, 0) 150 [0, 0, 0, 0, 1] [0, 0, 0, 0] = Some (Inr (T3, 3))"
proof -
  have c: "\<lceil>(150::real) * SEARCH_TIME_WITH_SAFETY\<rceil> = 75"
    by (simp add: SEARCH_TIME_WITH_SAFETY_def)
  show ?thesis
    by (simp add: mcts_tree_def c iteration_1 iteration_2 iteration_3)
qed

lemma mcts_run:
  "monte_carlo_tree_search take_game (2, 0, 0) 150 [0, 0, 0, 0, 1] [0, 0, 0, 0] = Some (Inr (Some 2))"
  by (simp add: monte_carlo_tree_search_def mcts_tree_run best_child_T3) (simp add: T3_def)

lemma mcts_loop_reachable:
  "mcts_reachable g game_state t k \<Longrightarrow>
   mcts_loop g start_time search_time clock t rnd k = Some (Inr (t', k')) \<Longrightarrow>
   mcts_reachable g game_state t' k'"
proof (induction clock arbitrary: t rnd k)
  case Nil
  then show ?case by simp
next
  case (Cons now clock)
  show ?case
  proof (cases "(now - start_time) * 1000 \<le> real_of_int search_time")
    case False
    with Cons.prems show ?thesis by simp
  next
    case True
    with Cons.prems(2) obtain t1 rnd1 where it: "iteration g t rnd = Some (Inr (t1, rnd1))"
      and rec: "mcts_loop g start_time search_time clock t1 rnd1 (Suc k) = Some (Inr (t', k'))"
      by (auto split: option.splits sum.splits)
    from mcts_reachable.step[OF Cons.prems(1) it] have "mcts_reachable g game_state t1 (Suc k)" .
    from Cons.IH[OF this rec] show ?thesis .
  qed
qed

lemma mcts_tree_reachable:
  "mcts_tree g game_state search_time clock rnd = Some (Inr (t, k)) \<Longrightarrow>
   mcts_reachable g game_state t k"
  by (cases clock) (auto simp: mcts_tree_def intro: mcts_loop_reachable[OF mcts_reachable.root])

lemma reachable_T1: "mcts_reachable take_game (2, 0, 0) T1 1"
  using mcts_reachable.step[OF mcts_reachable.root iteration_1] by simp

lemma reachable_T2: "mcts_reachable take_game (2, 0, 0) T2 2"
  using mcts_reachable.step[OF reachable_T1 iteration_2] by (simp add: numeral_2_eq_2)

lemma reachable_T3: "mcts_reachable take_game (2, 0, 0) T3 3"
  using mcts_reachable.step[OF reachable_T2 iteration_3] by (simp add: numeral_3_eq_3 numeral_2_eq_2)

text \<open>
  Claim C5. After every completed iteration (traverse, rollout, backpropagate) of the loop
  of \<open>monte_carlo_tree_search\<close>, the root's \<open>numberOfVisits\<close> is the number of
  completed iterations, and every node other than the root has a parent whose
  \<open>numberOfVisits\<close> is at least its own. By \<open>mcts_tree_reachable\<close> the tree the loop
  ends with, and the count of its iterations, are among those the theorem speaks of.
\<close>

theorem visit_count_invariant:
  assumes "mcts_reachable g game_state t k"
  shows "numberOfVisits (t ! 0) = k
         \<and> (\<forall>c < length t. 0 < c \<longrightarrow>
               (\<exists>p < c. parentNode (t ! c) = Some p
                         \<and> numberOfVisits (t ! c) \<le> numberOfVisits (t ! p)))"
proof -
  from reachable_inv[OF assms] have ok: "tree_ok t" and v: "visits_ok t k" by simp_all
  have "\<exists>p < c. parentNode (t ! c) = Some p \<and> numberOfVisits (t ! c) \<le> numberOfVisits (t ! p)"
    if "c < length t" "0 < c" for c
  proof -
    from tree_okD(3)[OF ok that] obtain p where p: "p < c" "parentNode (t ! c) = Some p" by blast
    from visits_okD(3)[OF v that(1) p(2)] p show ?thesis by blast
  qed
  with visits_okD(1)[OF v] show ?thesis by blast
qed

theorem visit_count_invariant_witness:
  "mcts_reachable take_game (2, 0, 0) T3 3
   \<and> numberOfVisits (T3 ! 0) = 3
   \<and> 3 < length T3
   \<and> (\<exists>p < 3. parentNode (T3 ! 3) = Some p
                 \<and> numberOfVisits (T3 ! 3) \<le> numberOfVisits (T3 ! p))"
proof -
  have l: "3 < length T3" by (simp add: T3_def)
  have z: "(0::nat) < 3" by simp
  from visit_count_invariant[OF reachable_T3] l z reachable_T3 show ?thesis by blast
qed

lemma best_child_loop_defined:
  "(\<forall>c \<in> set cs. \<exists>u. uct t i c = Inr u) \<Longrightarrow> b \<noteq> None \<or> (m = None \<and> cs \<noteq> []) \<Longrightarrow>
   \<exists>c. best_child_loop t i cs m b = Inr (Some c)"
proof (induction cs arbitrary: m b)
  case Nil
  then show ?case by auto
next
  case (Cons c0 cs)
  from Cons.prems(1) obtain u where u: "uct t i c0 = Inr u" by auto
  from Cons.prems(1) have rest: "\<forall>c \<in> set cs. \<exists>u. uct t i c = Inr u" by simp
  show ?case
  proof (cases "case m of None \<Rightarrow> True | Some mv \<Rightarrow> mv < u")
    case True
    have "\<exists>c. best_child_loop t i cs (Some u) (Some c0) = Inr (Some c)"
      by (rule Cons.IH[OF rest]) simp
    with True u show ?thesis by simp
  next
    case False
    then have "m \<noteq> None" by (cases m) simp_all
    with Cons.prems(2) have b: "b \<noteq> None" by simp
    have "\<exists>c. best_child_loop t i cs m b = Inr (Some c)"
      by (rule Cons.IH[OF rest]) (simp add: b)
    with False u show ?thesis by simp
  qed
qed

lemma traverse_raises_nothing:
  assumes ok: "tree_ok t"
    and bc: "\<And>i. i < length t \<Longrightarrow> non_terminal g (gameState (t ! i)) \<Longrightarrow>
               is_fully_expanded (t ! i) \<Longrightarrow> \<exists>c. best_child t i = Inr (Some c)"
  shows "i < length t \<Longrightarrow> traverse g t i rnd \<noteq> Some (Inl e)"
proof (induction "length t - i" arbitrary: i rule: less_induct)
  case less
  show ?case
  proof (cases "non_terminal g (gameState (t ! i))")
    case False
    then show ?thesis by (subst traverse.simps) simp
  next
    case nt: True
    show ?thesis
    proof (cases "is_fully_expanded (t ! i)")
      case False
      then have "openActions (t ! i) \<noteq> []" by (simp add: is_fully_expanded_def)
      with nt False show ?thesis
        by (subst traverse.simps) (simp add: expand_def choice_def split: list.splits)
    next
      case True
      from bc[OF less.prems nt True] obtain c where c: "best_child t i = Inr (Some c)" by blast
      from best_child_mem[OF c] have cin: "c \<in> set (childNodes (t ! i))" .
      from tree_okD(4)[OF ok less.prems cin] have ic: "i < c" .
      from tree_okD(5)[OF ok less.prems cin] have cl: "c < length t" .
      from ic cl have "length t - c < length t - i" by simp
      from less.hyps[OF this cl] have "traverse g t c rnd \<noteq> Some (Inl e)" .
      moreover have "traverse g t i rnd = traverse g t c rnd"
        using nt True c by (subst traverse.simps) simp
      ultimately show ?thesis by simp
    qed
  qed
qed

text \<open>
  Claim C6. \<open>traverse\<close> calls \<open>best_child\<close> on a node of the tree whose state is not
  terminal and that is fully expanded. In the tree after any number of completed
  iterations, every such node has at least one visit and so has each of its children,
  every score \<open>uct\<close> that \<open>best_child\<close> computes is defined (no division by zero and
  no logarithm of zero) and \<open>best_child\<close> returns one of the children; hence
  \<open>traverse\<close> from the root raises nothing. The hypothesis on the game is the property
  the specification gives of the game state capability, which the \<open>isolation\<close> library
  provides: a state without actions is terminal.
\<close>

theorem best_child_scores_are_defined:
  assumes game: "\<forall>s. \<not> terminal_test g s \<longrightarrow> actions g s \<noteq> []"
    and reach: "mcts_reachable g game_state t k"
  shows "(\<forall>i < length t.
            non_terminal g (gameState (t ! i)) \<and> is_fully_expanded (t ! i) \<longrightarrow>
              1 \<le> numberOfVisits (t ! i)
              \<and> (\<forall>c \<in> set (childNodes (t ! i)).
                    1 \<le> numberOfVisits (t ! c) \<and> (\<exists>u. uct t i c = Inr u))
              \<and> (\<exists>c \<in> set (childNodes (t ! i)). best_child t i = Inr (Some c)))
         \<and> (\<forall>rnd e. traverse g t 0 rnd \<noteq> Some (Inl e))"
proof -
  from reachable_inv[OF reach] have ok: "tree_ok t" and m: "moves_ok g t" and v: "visits_ok t k"
    by simp_all
  have node: "1 \<le> numberOfVisits (t ! i)
              \<and> (\<forall>c \<in> set (childNodes (t ! i)).
                    1 \<le> numberOfVisits (t ! c) \<and> (\<exists>u. uct t i c = Inr u))
              \<and> (\<exists>c \<in> set (childNodes (t ! i)). best_child t i = Inr (Some c))"
    if i: "i < length t" and nt: "non_terminal g (gameState (t ! i))"
      and fe: "is_fully_expanded (t ! i)" for i
  proof -
    from nt game have "actions g (gameState (t ! i)) \<noteq> []" by (simp add: non_terminal_def)
    with moves_okD(1)[OF m i] fe have ne: "childNodes (t ! i) \<noteq> []"
      by (auto simp: is_fully_expanded_def)
    have ch: "1 \<le> numberOfVisits (t ! c) \<and> numberOfVisits (t ! c) \<le> numberOfVisits (t ! i)"
      if "c \<in> set (childNodes (t ! i))" for c
    proof -
      from tree_okD(4)[OF ok i that] have "0 < c" by simp
      from visits_okD(2)[OF v tree_okD(5)[OF ok i that] this]
        visits_okD(3)[OF v tree_okD(5)[OF ok i that] tree_okD(6)[OF ok i that]]
      show ?thesis by simp
    qed
    from ne obtain c0 where c0: "c0 \<in> set (childNodes (t ! i))"
      by (cases "childNodes (t ! i)") auto
    from ch[OF c0] have ni: "1 \<le> numberOfVisits (t ! i)" by simp
    have sc: "1 \<le> numberOfVisits (t ! c) \<and> (\<exists>u. uct t i c = Inr u)"
      if "c \<in> set (childNodes (t ! i))" for c
      using ch[OF that] ni by (simp add: uct_def)
    then have "\<forall>c \<in> set (childNodes (t ! i)). \<exists>u. uct t i c = Inr u" by blast
    from best_child_loop_defined[OF this, of None None] ne
    obtain c where bc: "best_child t i = Inr (Some c)" by (auto simp: best_child_def)
    from best_child_mem[OF bc] bc
    have "\<exists>c \<in> set (childNodes (t ! i)). best_child t i = Inr (Some c)" by blast
    with ni sc show ?thesis by blast
  qed
  from tree_okD(1)[OF ok] have z: "0 < length t" by simp
  have "traverse g t 0 rnd \<noteq> Some (Inl e)" for rnd e
  proof (rule traverse_raises_nothing[OF ok _ z])
    fix i assume "i < length t" "non_terminal g (gameState (t ! i))" "is_fully_expanded (t ! i)"
    from node[OF this] show "\<exists>c. best_child t i = Inr (Some c)" by blast
  qed
  with node show ?thesis by blast
qed

lemma take_game_has_moves: "\<forall>s. \<not> terminal_test take_game s \<longrightarrow> actions take_game s \<noteq> []"
  by (simp add: take_game_def split: prod.splits)

theorem best_child_scores_are_defined_witness:
  "mcts_reachable take_game (2, 0, 0) T2 2
   \<and> 0 < length T2
   \<and> non_terminal take_game (gameState (T2 ! 0))
   \<and> is_fully_expanded (T2 ! 0)
   \<and> 1 \<le> numberOfVisits (T2 ! 0)
   \<and> 1 \<in> set (childNodes (T2 ! 0))
   \<and> 1 \<le> numberOfVisits (T2 ! 1) \<and> (\<exists>u. uct T2 0 1 = Inr u)
   \<and> 2 \<in> set (childNodes (T2 ! 0))
   \<and> 1 \<le> numberOfVisits (T2 ! 2) \<and> (\<exists>u. uct T2 0 2 = Inr u)
   \<and> (\<exists>c \<in> set (childNodes (T2 ! 0)). best_child T2 0 = Inr (Some c))
   \<and> (\<forall>rnd e. traverse take_game T2 0 rnd \<noteq> Some (Inl e))"
proof -
  have l: "0 < length T2" by (simp add: T2_def)
  have nt: "non_terminal take_game (gameState (T2 ! 0))"
    by (simp add: T2_def non_terminal_def take_game_def)
  have fe: "is_fully_expanded (T2 ! 0)" by (simp add: T2_def is_fully_expanded_def)
  have c1: "1 \<in> set (childNodes (T2 ! 0))" by (simp add: T2_def)
  have c2: "2 \<in> set (childNodes (T2 ! 0))" by (simp add: T2_def)
  from best_child_scores_are_defined[OF take_game_has_moves reachable_T2]
    reachable_T2 l nt fe c1 c2
  show ?thesis by blast
qed

lemma best_child_loop_argmax:
  "best_child_loop t i cs m b = Inr (Some c) \<Longrightarrow>
     (b = Some c \<and> (\<forall>c' \<in> set cs. \<exists>u'. uct t i c' = Inr u' \<and> (\<exists>mv. m = Some mv \<and> u' \<le> mv)))
     \<or> (\<exists>cs1 cs2 u. cs = cs1 @ c # cs2 \<and> uct t i c = Inr u \<and> (\<forall>mv. m = Some mv \<longrightarrow> mv < u)
           \<and> (\<forall>c' \<in> set cs1. \<exists>u'. uct t i c' = Inr u' \<and> u' < u)
           \<and> (\<forall>c' \<in> set cs2. \<exists>u'. uct t i c' = Inr u' \<and> u' \<le> u))"
proof (induction cs arbitrary: m b)
  case Nil
  then show ?case by simp
next
  case (Cons c0 cs)
  from Cons.prems obtain u0 where u0: "uct t i c0 = Inr u0"
    by (cases "uct t i c0") simp_all
  show ?case
  proof (cases "case m of None \<Rightarrow> True | Some mv \<Rightarrow> mv < u0")
    case True
    then have mlt: "\<forall>mv. m = Some mv \<longrightarrow> mv < u0" by (cases m) simp_all
    from True Cons.prems u0 have "best_child_loop t i cs (Some u0) (Some c0) = Inr (Some c)" by simp
    from Cons.IH[OF this]
    consider (first) "c0 = c" "\<forall>c' \<in> set cs. \<exists>u'. uct t i c' = Inr u' \<and> u' \<le> u0"
      | (later) cs1 cs2 u where "cs = cs1 @ c # cs2" "uct t i c = Inr u" "u0 < u"
          "\<forall>c' \<in> set cs1. \<exists>u'. uct t i c' = Inr u' \<and> u' < u"
          "\<forall>c' \<in> set cs2. \<exists>u'. uct t i c' = Inr u' \<and> u' \<le> u"
      by auto
    then show ?thesis
    proof cases
      case first
      have "c0 # cs = [] @ c # cs" using first(1) by simp
      moreover have "uct t i c = Inr u0" using first(1) u0 by simp
      moreover have "\<forall>c' \<in> set ([]::nat list). \<exists>u'. uct t i c' = Inr u' \<and> u' < u0" by simp
      ultimately show ?thesis using mlt first(2) by blast
    next
      case later
      have e: "c0 # cs = (c0 # cs1) @ c # cs2" using later(1) by simp
      have m': "\<forall>mv. m = Some mv \<longrightarrow> mv < u" using mlt later(3) by auto
      have l': "\<forall>c' \<in> set (c0 # cs1). \<exists>u'. uct t i c' = Inr u' \<and> u' < u"
        using later(3,4) u0 by simp
      from e later(2) m' l' later(5) show ?thesis by blast
    qed
  next
    case False
    then obtain mv where mv: "m = Some mv" "u0 \<le> mv" by (cases m) auto
    from False Cons.prems u0 have "best_child_loop t i cs m b = Inr (Some c)" by simp
    from Cons.IH[OF this] mv(1)
    consider (kept) "b = Some c" "\<forall>c' \<in> set cs. \<exists>u'. uct t i c' = Inr u' \<and> u' \<le> mv"
      | (later) cs1 cs2 u where "cs = cs1 @ c # cs2" "uct t i c = Inr u" "mv < u"
          "\<forall>c' \<in> set cs1. \<exists>u'. uct t i c' = Inr u' \<and> u' < u"
          "\<forall>c' \<in> set cs2. \<exists>u'. uct t i c' = Inr u' \<and> u' \<le> u"
      by auto
    then show ?thesis
    proof cases
      case kept
      have "\<forall>c' \<in> set (c0 # cs). \<exists>u'. uct t i c' = Inr u' \<and> (\<exists>mv. m = Some mv \<and> u' \<le> mv)"
        using kept(2) u0 mv by simp
      with kept(1) show ?thesis by blast
    next
      case later
      have e: "c0 # cs = (c0 # cs1) @ c # cs2" using later(1) by simp
      have m': "\<forall>mv. m = Some mv \<longrightarrow> mv < u" using mv(1) later(3) by simp
      have "u0 < u" using mv(2) later(3) by simp
      then have l': "\<forall>c' \<in> set (c0 # cs1). \<exists>u'. uct t i c' = Inr u' \<and> u' < u"
        using later(4) u0 by simp
      from e later(2) m' l' later(5) show ?thesis by blast
    qed
  qed
qed

lemma expand_length:
  assumes e: "expand g t j r = Inr (t1, leaf)" and j: "j < length t"
  shows "length t1 = Suc (length t)"
  using e j by (rule expandE)

lemma iteration_parts:
  assumes it: "iteration g t rnd = Some (Inr (t', rnd'))"
    and ok: "tree_ok t" and m: "moves_ok g t" and v: "visits_ok t k"
  shows "\<exists>t1 leaf rnd1. traverse g t 0 rnd = Some (Inr (t1, leaf, rnd1)) \<and> same_struct t1 t'
           \<and> length t \<le> length t1
           \<and> ((t1 = t \<and> leaf < length t) \<or> (\<exists>j r. j < length t \<and> expand g t j r = Inr (t1, leaf)))"
proof -
  from it obtain t1 leaf rnd1 res where tr: "traverse g t 0 rnd = Some (Inr (t1, leaf, rnd1))"
    and bp: "backpropagate t1 leaf res = Some t'"
    by (auto simp: iteration_def split: option.splits sum.splits)
  from tree_okD(1)[OF ok] have z: "0 < length t" by simp
  note alt = traverse_result[OF ok z tr]
  have mid: "tree_ok t1 \<and> visits_mid t1 k leaf \<and> leaf < length t1 \<and> length t \<le> length t1"
  proof -
    from alt consider "t1 = t" "leaf < length t"
      | j r where "j < length t" "expand g t j r = Inr (t1, leaf)" by blast
    then show ?thesis
    proof cases
      case 1
      with ok visits_ok_mid[OF v] show ?thesis by simp
    next
      case 2
      from expand_length[OF 2(2,1)] have "length t1 = Suc (length t)" .
      with expand_tree_ok[OF 2(2,1) ok] expand_visits[OF 2(2,1) ok v]
      show ?thesis by simp
    qed
  qed
  then have ok1: "tree_ok t1" and v1: "visits_mid t1 k leaf" and l1: "leaf < length t1"
    and le: "length t \<le> length t1" by simp_all
  from backpropagate_visits[OF ok1 l1 v1, of res] bp have s: "same_struct t1 t'" by simp
  from tr s le alt show ?thesis by blast
qed

lemma same_struct_root:
  assumes "same_struct t t'" and "0 < length t"
  shows "gameState (t' ! 0) = gameState (t ! 0)" and "childNodes (t' ! 0) = childNodes (t ! 0)"
  using assms by (simp_all add: same_struct_def)

lemma expand_root:
  assumes e: "expand g t j r = Inr (t1, leaf)" and j: "j < length t"
  shows "gameState (t1 ! 0) = gameState (t ! 0)"
    and "childNodes (t ! 0) \<noteq> [] \<Longrightarrow> childNodes (t1 ! 0) \<noteq> []"
    and "j = 0 \<Longrightarrow> childNodes (t1 ! 0) \<noteq> []"
proof -
  from e j obtain move where fg: "\<And>c. c < length t \<Longrightarrow> gameState (t1 ! c) = gameState (t ! c)"
    and fc: "\<And>c. c < length t \<Longrightarrow> c \<noteq> j \<Longrightarrow> childNodes (t1 ! c) = childNodes (t ! c)"
    and cj: "childNodes (t1 ! j) = childNodes (t ! j) @ [length t]"
    by (rule expandE) (rule that)
  have "0 \<le> j" by simp
  from this j have z: "0 < length t" by (rule le_less_trans)
  show "gameState (t1 ! 0) = gameState (t ! 0)" by (rule fg[OF z])
  show "j = 0 \<Longrightarrow> childNodes (t1 ! 0) \<noteq> []" using cj by simp
  show "childNodes (t ! 0) \<noteq> [] \<Longrightarrow> childNodes (t1 ! 0) \<noteq> []"
    using cj fc[OF z] by (cases "j = 0") simp_all
qed

lemma iteration_root:
  assumes it: "iteration g t rnd = Some (Inr (t', rnd'))"
    and ok: "tree_ok t" and m: "moves_ok g t" and v: "visits_ok t k"
  shows "gameState (t' ! 0) = gameState (t ! 0)"
    and "non_terminal g (gameState (t ! 0)) \<Longrightarrow> actions g (gameState (t ! 0)) \<noteq> [] \<Longrightarrow>
           childNodes (t' ! 0) \<noteq> []"
proof -
  from iteration_parts[OF it ok m v]
  obtain t1 leaf rnd1 where tr: "traverse g t 0 rnd = Some (Inr (t1, leaf, rnd1))"
    and s: "same_struct t1 t'" and le: "length t \<le> length t1"
    and alt: "(t1 = t \<and> leaf < length t) \<or> (\<exists>j r. j < length t \<and> expand g t j r = Inr (t1, leaf))"
    by blast
  from tree_okD(1)[OF ok] have z: "0 < length t" by simp
  from z le have z1: "0 < length t1" by (rule less_le_trans)
  from alt have "gameState (t1 ! 0) = gameState (t ! 0)" using expand_root(1) by blast
  with same_struct_root(1)[OF s z1] show "gameState (t' ! 0) = gameState (t ! 0)" by simp
  show "childNodes (t' ! 0) \<noteq> []"
    if nt: "non_terminal g (gameState (t ! 0))" and acts: "actions g (gameState (t ! 0)) \<noteq> []"
  proof -
    have "childNodes (t1 ! 0) \<noteq> []"
    proof (cases "is_fully_expanded (t ! 0)")
      case True
      with moves_okD(1)[OF m z] acts have "childNodes (t ! 0) \<noteq> []"
        by (auto simp: is_fully_expanded_def)
      with alt show ?thesis using expand_root(2) by blast
    next
      case False
      with nt tr obtain r where "expand g t 0 r = Inr (t1, leaf)"
        by (subst (asm) traverse.simps) (auto split: list.splits sum.splits)
      from expand_root(3)[OF this z] show ?thesis by simp
    qed
    with same_struct_root(2)[OF s z1] show ?thesis by simp
  qed
qed

lemma reachable_root:
  "mcts_reachable g game_state t k \<Longrightarrow>
   gameState (t ! 0) = game_state
   \<and> (1 \<le> k \<and> \<not> terminal_test g game_state \<and> actions g game_state \<noteq> []
        \<longrightarrow> childNodes (t ! 0) \<noteq> [])"
proof (induction rule: mcts_reachable.induct)
  case root
  show ?case by (simp add: Node_def)
next
  case (step t k rnd t' rnd')
  from reachable_inv[OF step.hyps(1)] have ok: "tree_ok t" and m: "moves_ok g t"
    and v: "visits_ok t k" by simp_all
  from step.IH have gs: "gameState (t ! 0) = game_state" by simp
  from iteration_root(1)[OF step.hyps(2) ok m v] gs have g': "gameState (t' ! 0) = game_state"
    by simp
  have "childNodes (t' ! 0) \<noteq> []"
    if "\<not> terminal_test g game_state" "actions g game_state \<noteq> []"
    using iteration_root(2)[OF step.hyps(2) ok m v] that gs by (simp add: non_terminal_def)
  with g' show ?case by simp
qed

lemma mcts_returns_action:
  assumes tree: "mcts_tree g game_state search_time clock rnd = Some (Inr (t, k))"
    and k: "1 \<le> k" and nt: "\<not> terminal_test g game_state"
    and acts: "actions g game_state \<noteq> []"
  shows "\<exists>mv \<in> set (actions g game_state).
           monte_carlo_tree_search g game_state search_time clock rnd = Some (Inr (Some mv))"
proof -
  from mcts_tree_reachable[OF tree] have reach: "mcts_reachable g game_state t k" .
  from reachable_inv[OF reach] have ok: "tree_ok t" and m: "moves_ok g t" and v: "visits_ok t k"
    by simp_all
  from reachable_root[OF reach] k nt acts have gs: "gameState (t ! 0) = game_state"
    and ne: "childNodes (t ! 0) \<noteq> []" by simp_all
  from tree_okD(1)[OF ok] have z: "0 < length t" by simp
  from visits_okD(1)[OF v] k have n0: "1 \<le> numberOfVisits (t ! 0)" by simp
  have "\<exists>u. uct t 0 c = Inr u" if "c \<in> set (childNodes (t ! 0))" for c
  proof -
    from tree_okD(4)[OF ok z that] have "0 < c" .
    from visits_okD(2)[OF v tree_okD(5)[OF ok z that] this] n0 show ?thesis
      by (simp add: uct_def)
  qed
  then have "\<forall>c \<in> set (childNodes (t ! 0)). \<exists>u. uct t 0 c = Inr u" by blast
  from best_child_loop_defined[OF this, of None None] ne
  obtain c where bc: "best_child t 0 = Inr (Some c)" by (auto simp: best_child_def)
  from moves_okD(3)[OF m z best_child_mem[OF bc]] gs
  obtain mv where mv: "mv \<in> set (actions g game_state)" "action (t ! c) = Some mv" by auto
  from tree bc mv(2)
  have "monte_carlo_tree_search g game_state search_time clock rnd = Some (Inr (Some mv))"
    by (simp add: monte_carlo_tree_search_def)
  with mv(1) show ?thesis by blast
qed

text \<open>
  Claim C2, as amended. Let the loop of \<open>monte_carlo_tree_search\<close> end with the tree
  \<open>t\<close> after \<open>k\<close> iterations. From a state that is not terminal and has a move,
  after at least one completed iteration the function returns one of the actions of that
  state. Whenever it returns an action, it is the action of the child of the root with
  the greatest UCT score in \<open>t\<close>, the first one in \<open>childNodes\<close> where several
  children share that score: every child before it has a strictly smaller score, none
  after it has a greater one. Visit counts enter only through the score.
\<close>

theorem mcts_returns_first_child_of_greatest_uct:
  assumes tree: "mcts_tree g game_state search_time clock rnd = Some (Inr (t, k))"
  shows "(1 \<le> k \<and> \<not> terminal_test g game_state \<and> actions g game_state \<noteq> [] \<longrightarrow>
            (\<exists>mv \<in> set (actions g game_state).
               monte_carlo_tree_search g game_state search_time clock rnd = Some (Inr (Some mv))))
         \<and> (\<forall>a. monte_carlo_tree_search g game_state search_time clock rnd = Some (Inr a) \<longrightarrow>
               (\<exists>cs1 c cs2 u.
                  childNodes (t ! 0) = cs1 @ c # cs2 \<and> a = action (t ! c) \<and> uct t 0 c = Inr u
                  \<and> (\<forall>c' \<in> set cs1. \<exists>u'. uct t 0 c' = Inr u' \<and> u' < u)
                  \<and> (\<forall>c' \<in> set cs2. \<exists>u'. uct t 0 c' = Inr u' \<and> u' \<le> u)))"
proof -
  have "\<exists>cs1 c cs2 u.
          childNodes (t ! 0) = cs1 @ c # cs2 \<and> a = action (t ! c) \<and> uct t 0 c = Inr u
          \<and> (\<forall>c' \<in> set cs1. \<exists>u'. uct t 0 c' = Inr u' \<and> u' < u)
          \<and> (\<forall>c' \<in> set cs2. \<exists>u'. uct t 0 c' = Inr u' \<and> u' \<le> u)"
    if r: "monte_carlo_tree_search g game_state search_time clock rnd = Some (Inr a)" for a
  proof -
    from r tree obtain c where bc: "best_child t 0 = Inr (Some c)" and a: "a = action (t ! c)"
      by (auto simp: monte_carlo_tree_search_def split: option.splits sum.splits)
    from bc have "best_child_loop t 0 (childNodes (t ! 0)) None None = Inr (Some c)"
      by (simp add: best_child_def)
    from best_child_loop_argmax[OF this]
    obtain cs1 cs2 u where "childNodes (t ! 0) = cs1 @ c # cs2" "uct t 0 c = Inr u"
      "\<forall>c' \<in> set cs1. \<exists>u'. uct t 0 c' = Inr u' \<and> u' < u"
      "\<forall>c' \<in> set cs2. \<exists>u'. uct t 0 c' = Inr u' \<and> u' \<le> u"
      by auto
    with a show ?thesis by blast
  qed
  with mcts_returns_action[OF tree] show ?thesis by blast
qed

theorem mcts_returns_first_child_of_greatest_uct_witness:
  "mcts_tree take_game (2, 0, 0) 150 [0, 0, 0, 0, 1] [0, 0, 0, 0] = Some (Inr (T3, 3))
   \<and> (1::nat) \<le> 3 \<and> \<not> terminal_test take_game (2, 0, 0) \<and> actions take_game (2, 0, 0) \<noteq> []
   \<and> monte_carlo_tree_search take_game (2, 0, 0) 150 [0, 0, 0, 0, 1] [0, 0, 0, 0] = Some (Inr (Some 2))
   \<and> (\<exists>mv \<in> set (actions take_game (2, 0, 0)).
         monte_carlo_tree_search take_game (2, 0, 0) 150 [0, 0, 0, 0, 1] [0, 0, 0, 0]
           = Some (Inr (Some mv)))
   \<and> (\<exists>cs1 c cs2 u.
         childNodes (T3 ! 0) = cs1 @ c # cs2 \<and> Some 2 = action (T3 ! c) \<and> uct T3 0 c = Inr u
         \<and> (\<forall>c' \<in> set cs1. \<exists>u'. uct T3 0 c' = Inr u' \<and> u' < u)
         \<and> (\<forall>c' \<in> set cs2. \<exists>u'. uct T3 0 c' = Inr u' \<and> u' \<le> u))"
proof -
  have k: "(1::nat) \<le> 3" by simp
  have nt: "\<not> terminal_test take_game (2, 0, 0)" by (simp add: take_game_def)
  have acts: "actions take_game (2, 0, 0) \<noteq> []" by (simp add: take_game_def)
  from mcts_returns_first_child_of_greatest_uct[OF mcts_tree_run] mcts_tree_run mcts_run k nt acts
  show ?thesis by blast
qed

text \<open>
  Claim C2 as stated fails: after three completed iterations from a pile of two tokens
  the child for taking one token has two visits and the child for taking two tokens has
  one, and the search returns the action of the latter, whose UCT score is greater.
\<close>

theorem mcts_returns_less_visited_child_counterexample:
  "mcts_tree take_game (2, 0, 0) 150 [0, 0, 0, 0, 1] [0, 0, 0, 0] = Some (Inr (T3, 3))
   \<and> monte_carlo_tree_search take_game (2, 0, 0) 150 [0, 0, 0, 0, 1] [0, 0, 0, 0]
       = Some (Inr (Some 2))
   \<and> childNodes (T3 ! 0) = [1, 2]
   \<and> action (T3 ! 1) = Some 1 \<and> numberOfVisits (T3 ! 1) = 2
   \<and> action (T3 ! 2) = Some 2 \<and> numberOfVisits (T3 ! 2) = 1"
  by (simp add: mcts_tree_run mcts_run T3_def)

end
